theory Spec2Isabelle
  imports Main "HOL-Library.Word" "HOL-Library.AList"
begin

section \<open>The timer scheduler of scheduler/default.go\<close>

text \<open>
  The Go integers keep their width: \<open>int64\<close> ids, timestamps, durations and
  offsets are 64-bit words (\<open>+\<close> wraps, \<open>\<le>s\<close> is the signed comparison Go's
  \<open>\<le>\<close> makes on them), the \<open>closed\<close> flag is a 32-bit word.
\<close>

type_synonym int64 = "64 word"
type_synonym int32 = "32 word"

text \<open>The value \<open>time.Now()\<close> returns; the scheduler reads only its \<open>UnixNano()\<close>.\<close>

datatype time = Time (UnixNano: int64)

text \<open>
  How a call of a callback ends: it returns, or it panics. \<open>Panics v\<close> carries what
  \<open>recover()\<close> then returns: \<open>Some v\<close> is a value that is not nil (as \<open>%v\<close> prints it),
  \<open>None\<close> is the nil that \<open>recover()\<close> returns after \<open>panic(nil)\<close> (Go before 1.21 and
  modules that keep its semantics; later Go turns \<open>panic(nil)\<close> into a run-time error
  value, which is a \<open>Some\<close>). \<open>recover()\<close> also returns nil when nothing panicked.
\<close>

datatype outcome = Returns | Panics "string option"

definition recover :: "outcome \<Rightarrow> string option" where
  "recover r = (case r of Returns \<Rightarrow> None | Panics v \<Rightarrow> v)"

text \<open>
  Modelled from the spec: the callback type \<open>Func\<close> (declared outside default.go), a
  zero-argument side-effecting procedure. A callback acts on the host program's state
  \<open>'w\<close> and returns or panics. A nil \<open>Func\<close> is \<open>None :: 'w Func option\<close>. Callbacks
  are taken not to call back into the scheduler.
\<close>

type_synonym 'w Func = "'w \<Rightarrow> 'w \<times> outcome"

text \<open>
  Modelled from the spec: the record \<open>TimerOptions\<close> (declared outside default.go), with
  the four fields default.go reads and writes. \<open>Counter\<close> is only compared with 0 and
  \<open>LoopForever\<close> and decremented while positive, so it never leaves the range of a Go
  \<open>int\<close> of any width and is kept as an integer. \<open>Condition\<close> is nil or an object
  whose \<open>Check(now)\<close> returns a boolean.
\<close>

record 'w TimerOptions =
  Fn :: "'w Func option"
  Interval :: int64
  Counter :: int
  Condition :: "(time \<Rightarrow> bool) option"

text \<open>Modelled from the spec: the sentinel \<open>LoopForever = -1\<close> (declared outside default.go).\<close>

definition LoopForever :: int where
  "LoopForever = - 1"

text \<open>
  Modelled from the spec: the scheduler's \<open>Options\<close> (declared outside default.go):
  the tick period and the capacity of both channels.
\<close>

record Options =
  Precision :: int64
  timerBacklog :: int

text \<open>The struct \<open>Timer\<close>; its fields \<open>opts\<close> and \<open>id\<close> are \<open>t_opts\<close> and \<open>t_id\<close> here.\<close>

record 'w Timer =
  t_opts :: "'w TimerOptions"
  t_id :: int64
  createAt :: int64
  elapse :: int64
  closed :: int32

text \<open>
  The struct \<open>DefaultScheduler\<close>. The \<open>sync.Map\<close> is an association list with
  \<open>Store\<close>, \<open>Delete\<close> and \<open>Load\<close> as \<open>AList.update\<close>, \<open>AList.delete\<close> and
  \<open>map_of\<close>; \<open>Range\<close> visits the entries in list order (Go leaves the order open).
  A buffered channel is the list of the values it holds, oldest first; both channels are
  made with capacity \<open>timerBacklog\<close>. The channel \<open>exit\<close> carries no value: the field
  says whether it has been closed.
\<close>

record 'w DefaultScheduler =
  opts :: Options
  incrementID :: int64
  timers :: "(int64 \<times> 'w Timer) list"
  ChClosingTimer :: "int64 list"
  ChCreatedTimer :: "'w Timer list"
  exit :: bool

text \<open>Modelled from the spec: the two error values of package \<open>constants\<close>.\<close>

datatype error = ErrTimerNotFound | ErrCloseClosedTimer

text \<open>The run-time panics the scheduler's own statements can raise.\<close>

datatype panic = CloseOfClosedChannel | MakechanSizeOutOfRange | NonPositiveTickerInterval

text \<open>What a scan leaves behind: a callback was called, or \<open>pexec\<close> logged a recovered panic.\<close>

datatype event = Called int64 | Logged int64 string

subsection \<open>Construction\<close>

text \<open>
  \<open>newScheduler\<close>, from the options \<open>newOptions(opt...)\<close> built. \<open>make\<close> panics on a
  negative capacity.
\<close>

definition newScheduler :: "Options \<Rightarrow> panic + 'w DefaultScheduler" where
  "newScheduler options =
     (if timerBacklog options < 0 then Inl MakechanSizeOutOfRange
      else Inr \<lparr>opts = options, incrementID = 0, timers = [], ChClosingTimer = [],
                ChCreatedTimer = [], exit = False\<rparr>)"

definition Init :: "(Options \<Rightarrow> Options) list \<Rightarrow> 'w DefaultScheduler \<Rightarrow> panic + 'w DefaultScheduler" where
  "Init opt d =
     (let o' = foldl (\<lambda>acc f. f acc) (opts d) opt
      in if timerBacklog o' < 0 then Inl MakechanSizeOutOfRange
         else Inr (d\<lparr>opts := o', ChClosingTimer := [], ChCreatedTimer := []\<rparr>))"

subsection \<open>Stop\<close>

text \<open>\<open>close(d.exit)\<close>: closing a channel that is already closed panics.\<close>

definition Stop :: "'w DefaultScheduler \<Rightarrow> panic + 'w DefaultScheduler" where
  "Stop d = (if exit d then Inl CloseOfClosedChannel else Inr (d\<lparr>exit := True\<rparr>))"

subsection \<open>Admission and cancellation\<close>

text \<open>
  \<open>NewTimer\<close>, with the clock reading it takes. The id is allocated first; the send on
  \<open>ChCreatedTimer\<close> completes when the buffer has room, and otherwise the caller stays
  suspended: no id is returned (\<open>None\<close>) and the record is not in the channel.
\<close>

definition NewTimer ::
  "time \<Rightarrow> int64 \<Rightarrow> 'w Func option \<Rightarrow> ('w TimerOptions \<Rightarrow> 'w TimerOptions) list \<Rightarrow>
   'w DefaultScheduler \<Rightarrow> int64 option \<times> 'w DefaultScheduler" where
  "NewTimer now interval fn opt d =
     (let i = incrementID d + 1;
          t = \<lparr>t_opts = foldl (\<lambda>acc f. f acc)
                   \<lparr>Fn = fn, Interval = interval, Counter = LoopForever, Condition = None\<rparr> opt,
               t_id = i, createAt = UnixNano now, elapse = interval, closed = 0\<rparr>;
          d1 = d\<lparr>incrementID := i\<rparr>
      in if int (length (ChCreatedTimer d1)) < timerBacklog (opts d1)
         then (Some i, d1\<lparr>ChCreatedTimer := ChCreatedTimer d1 @ [t]\<rparr>)
         else (None, d1))"

text \<open>
  \<open>stopTimer\<close> works on the \<open>Timer\<close> a pointer names; it returns the error (nil is
  \<open>None\<close>), the record as it leaves it and the scheduler with its retirement channel.
\<close>

definition stopTimer ::
  "'w Timer \<Rightarrow> 'w DefaultScheduler \<Rightarrow> error option \<times> 'w Timer \<times> 'w DefaultScheduler" where
  "stopTimer t d =
     (if 0 <s closed t then (Some ErrCloseClosedTimer, t, d)
      else if int (length (ChClosingTimer d)) < timerBacklog (opts d)
      then (None, t\<lparr>closed := 1\<rparr>, d\<lparr>ChClosingTimer := ChClosingTimer d @ [t_id t]\<rparr>)
      else (None, t\<lparr>t_opts := (t_opts t)\<lparr>Counter := 0\<rparr>\<rparr>, d))"

text \<open>
  \<open>RemoveTimer\<close>: the record is reached through the pointer the map holds under \<open>id\<close>,
  so what \<open>stopTimer\<close> writes is written to that entry.
\<close>

definition RemoveTimer :: "int64 \<Rightarrow> 'w DefaultScheduler \<Rightarrow> error option \<times> 'w DefaultScheduler" where
  "RemoveTimer i d =
     (case map_of (timers d) i of
        None \<Rightarrow> (Some ErrTimerNotFound, d)
      | Some t \<Rightarrow>
          (case stopTimer t d of
             (e, t', d') \<Rightarrow> (e, d'\<lparr>timers := AList.update i t' (timers d')\<rparr>)))"

subsection \<open>The scan\<close>

text \<open>
  \<open>pexec\<close>: the deferred function takes \<open>err := recover()\<close> and logs the timer id and
  \<open>err\<close> only if \<open>err != nil\<close>. Calling a nil \<open>Func\<close> panics with a run-time error,
  which is not nil, before any callback runs.
\<close>

definition pexec :: "int64 \<Rightarrow> 'w Func option \<Rightarrow> 'w \<Rightarrow> 'w \<times> event list" where
  "pexec i fn w =
     (case fn of
        None \<Rightarrow> (w, [Logged i ''invalid memory address or nil pointer dereference''])
      | Some f \<Rightarrow>
          (case f w of
             (w', r) \<Rightarrow>
               (case recover r of
                  None \<Rightarrow> (w', [Called i])
                | Some err \<Rightarrow> (w', [Called i, Logged i err]))))"

text \<open>The function \<open>Cron\<close> passes to \<open>Range\<close>, on one entry of the map.\<close>

definition cron_timer ::
  "time \<Rightarrow> int64 \<Rightarrow> 'w Timer \<Rightarrow> 'w DefaultScheduler \<Rightarrow> 'w \<Rightarrow>
   'w Timer \<times> 'w DefaultScheduler \<times> 'w \<times> event list" where
  "cron_timer now i t d w =
     (if Counter (t_opts t) = 0 then
        (if int (length (ChClosingTimer d)) < timerBacklog (opts d)
         then (case stopTimer t d of (e, t', d') \<Rightarrow> (t', d', w, []))
         else (t, d, w, []))
      else
        (case Condition (t_opts t) of
           Some c \<Rightarrow>
             (if c now then (case pexec i (Fn (t_opts t)) w of (w', es) \<Rightarrow> (t, d, w', es))
              else (t, d, w, []))
         | None \<Rightarrow>
             (if createAt t + elapse t \<le>s UnixNano now then
                (case pexec i (Fn (t_opts t)) w of
                   (w', es) \<Rightarrow>
                     (let t1 = t\<lparr>elapse := elapse t + Interval (t_opts t)\<rparr>;
                          t2 = (if Counter (t_opts t1) \<noteq> LoopForever \<and> 0 < Counter (t_opts t1)
                                then t1\<lparr>t_opts := (t_opts t1)\<lparr>Counter := Counter (t_opts t1) - 1\<rparr>\<rparr>
                                else t1)
                      in (t2, d, w', es)))
              else (t, d, w, []))))"

text \<open>\<open>Range\<close> with a function that always returns true: every entry, once.\<close>

fun cron_range ::
  "time \<Rightarrow> (int64 \<times> 'w Timer) list \<Rightarrow> 'w DefaultScheduler \<Rightarrow> 'w \<Rightarrow>
   (int64 \<times> 'w Timer) list \<times> 'w DefaultScheduler \<times> 'w \<times> event list" where
  "cron_range now [] d w = ([], d, w, [])"
| "cron_range now ((i, t) # ts) d w =
     (case cron_timer now i t d w of
        (t', d1, w1, es1) \<Rightarrow>
          (case cron_range now ts d1 w1 of
             (ts', d2, w2, es2) \<Rightarrow> ((i, t') # ts', d2, w2, es1 @ es2)))"

text \<open>\<open>Cron\<close>, with the clock reading it takes.\<close>

definition Cron :: "time \<Rightarrow> 'w DefaultScheduler \<Rightarrow> 'w \<Rightarrow> 'w DefaultScheduler \<times> 'w \<times> event list" where
  "Cron now d w =
     (case cron_range now (timers d) d w of
        (ts', d', w', es) \<Rightarrow> (d'\<lparr>timers := ts'\<rparr>, w', es))"

text \<open>
  The tests of the visit under which it reaches \<open>pexec\<close>: the counter is not 0, and the
  condition holds or, without a condition, \<open>createAt + elapse <= now\<close>.
\<close>

definition due :: "time \<Rightarrow> 'w Timer \<Rightarrow> bool" where
  "due now t \<longleftrightarrow>
     Counter (t_opts t) \<noteq> 0 \<and>
     (case Condition (t_opts t) of
        Some c \<Rightarrow> c now
      | None \<Rightarrow> createAt t + elapse t \<le>s UnixNano now)"

text \<open>The events of one timer id.\<close>

definition about :: "int64 \<Rightarrow> event \<Rightarrow> bool" where
  "about k e = (case e of Called i \<Rightarrow> i = k | Logged i v \<Rightarrow> i = k)"

subsection \<open>The tick loop\<close>

text \<open>
  One pass of \<open>for { select { ... } }\<close> in \<open>Start\<close>: the case the \<open>select\<close> takes, which
  must be ready (the exit channel closed, a value in the channel received from; the
  ticker's case comes with the clock reading \<open>Cron\<close> will take). A pass ends by going
  round the \<open>for\<close> again or by leaving it. The \<open>break\<close> of the exit case ends the
  \<open>select\<close> statement, the innermost statement a \<open>break\<close> can end: the \<open>for\<close> goes on.
\<close>

datatype select_case = CaseExit | CaseTick time | CaseCreated | CaseClosing

datatype flow = NextPass | LeaveLoop

definition select_step ::
  "select_case \<Rightarrow> 'w DefaultScheduler \<times> 'w \<Rightarrow>
   (flow \<times> 'w DefaultScheduler \<times> 'w \<times> event list) option" where
  "select_step c s =
     (case s of (d, w) \<Rightarrow>
        (case c of
           CaseExit \<Rightarrow> (if exit d then Some (NextPass, d, w, []) else None)
         | CaseTick now \<Rightarrow> Some (NextPass, Cron now d w)
         | CaseCreated \<Rightarrow>
             (case ChCreatedTimer d of
                [] \<Rightarrow> None
              | t # ts \<Rightarrow>
                  Some (NextPass,
                    d\<lparr>ChCreatedTimer := ts, timers := AList.update (t_id t) t (timers d)\<rparr>, w, []))
         | CaseClosing \<Rightarrow>
             (case ChClosingTimer d of
                [] \<Rightarrow> None
              | i # is \<Rightarrow>
                  Some (NextPass,
                    d\<lparr>ChClosingTimer := is, timers := AList.delete i (timers d)\<rparr>, w, []))))"

text \<open>
  The \<open>for\<close> loop over the passes given. The result says whether the statement after the
  loop, \<open>ticker.Stop()\<close>, has been reached (\<open>True\<close>) or the loop is still going.
  \<open>None\<close>: a case was taken that was not ready.
\<close>

fun tick_loop ::
  "select_case list \<Rightarrow> 'w DefaultScheduler \<times> 'w \<Rightarrow>
   (bool \<times> 'w DefaultScheduler \<times> 'w \<times> event list) option" where
  "tick_loop [] (d, w) = Some (False, d, w, [])"
| "tick_loop (c # cs) s =
     (case select_step c s of
        None \<Rightarrow> None
      | Some (LeaveLoop, d1, w1, es1) \<Rightarrow> Some (True, d1, w1, es1)
      | Some (NextPass, d1, w1, es1) \<Rightarrow>
          (case tick_loop cs (d1, w1) of
             None \<Rightarrow> None
           | Some (b, d2, w2, es2) \<Rightarrow> Some (b, d2, w2, es1 @ es2)))"

text \<open>The goroutine of \<open>Start\<close>: \<open>time.NewTicker\<close> panics on a non-positive period.\<close>

definition Start ::
  "select_case list \<Rightarrow> 'w DefaultScheduler \<times> 'w \<Rightarrow>
   panic + (bool \<times> 'w DefaultScheduler \<times> 'w \<times> event list) option" where
  "Start cs s =
     (if Precision (opts (fst s)) \<le>s 0 then Inl NonPositiveTickerInterval
      else Inr (tick_loop cs s))"

subsection \<open>Runs\<close>

text \<open>
  A run interleaves the producers' calls with the passes of the tick loop, each taken
  as one step. The events of a scan carry the clock reading of that scan. A run has no
  value (\<open>None\<close>) when a step cannot happen: a \<open>select\<close> case that is not ready, a pass
  after the loop was left, a second \<open>Stop\<close>.
\<close>

datatype 'w action =
    CallNewTimer time int64 "'w Func option" "('w TimerOptions \<Rightarrow> 'w TimerOptions) list"
  | CallRemoveTimer int64
  | CallStop
  | Pass select_case

definition stamp :: "select_case \<Rightarrow> event list \<Rightarrow> (time \<times> event) list" where
  "stamp c es = (case c of CaseTick now \<Rightarrow> map (Pair now) es | _ \<Rightarrow> [])"

fun exec ::
  "'w action \<Rightarrow> 'w DefaultScheduler \<times> 'w \<Rightarrow>
   ('w DefaultScheduler \<times> 'w \<times> (time \<times> event) list) option" where
  "exec (CallNewTimer now interval fn opt) (d, w) = Some (snd (NewTimer now interval fn opt d), w, [])"
| "exec (CallRemoveTimer i) (d, w) = Some (snd (RemoveTimer i d), w, [])"
| "exec CallStop (d, w) = (case Stop d of Inl p \<Rightarrow> None | Inr d' \<Rightarrow> Some (d', w, []))"
| "exec (Pass c) (d, w) =
     (case select_step c (d, w) of
        Some (NextPass, d', w', es) \<Rightarrow> Some (d', w', stamp c es)
      | _ \<Rightarrow> None)"

fun run ::
  "'w action list \<Rightarrow> 'w DefaultScheduler \<times> 'w \<Rightarrow>
   ('w DefaultScheduler \<times> 'w \<times> (time \<times> event) list) option" where
  "run [] (d, w) = Some (d, w, [])"
| "run (a # as) s =
     (case exec a s of
        None \<Rightarrow> None
      | Some (d1, w1, tr1) \<Rightarrow>
          (case run as (d1, w1) of
             None \<Rightarrow> None
           | Some (d2, w2, tr2) \<Rightarrow> Some (d2, w2, tr1 @ tr2)))"

text \<open>The clock readings of the scans of a run, as signed numbers, in order.\<close>

fun ticks :: "'w action list \<Rightarrow> int list" where
  "ticks [] = []"
| "ticks (Pass (CaseTick now) # as) = sint (UnixNano now) # ticks as"
| "ticks (a # as) = ticks as"

text \<open>
  What holds of every scheduler the operations can reach while fewer than \<open>2 ^ 64\<close> ids
  have been given out: every record carries an id already allocated, a record sits in
  the map under its own id, and no id is held twice.
\<close>

definition wf :: "'w DefaultScheduler \<Rightarrow> bool" where
  "wf d \<longleftrightarrow>
     (\<forall>t \<in> set (ChCreatedTimer d). unat (t_id t) \<le> unat (incrementID d)) \<and>
     (\<forall>(k, t) \<in> set (timers d). t_id t = k \<and> unat k \<le> unat (incrementID d)) \<and>
     distinct (map t_id (ChCreatedTimer d) @ map fst (timers d))"

text \<open>The options a timer is admitted with: the defaults, then the caller's options in order.\<close>

definition admitted_opts ::
  "int64 \<Rightarrow> 'w Func option \<Rightarrow> ('w TimerOptions \<Rightarrow> 'w TimerOptions) list \<Rightarrow> 'w TimerOptions" where
  "admitted_opts interval fn opt =
     foldl (\<lambda>acc f. f acc) \<lparr>Fn = fn, Interval = interval, Counter = LoopForever, Condition = None\<rparr> opt"

subsection \<open>Invariants of one timer along a run\<close>

text \<open>
  \<open>holds_at k P d\<close>: every record with id \<open>k\<close> that the scheduler holds, waiting in the
  admission channel or stored under \<open>k\<close> in the timer set, satisfies \<open>P\<close>.
\<close>

definition holds_at :: "int64 \<Rightarrow> ('w Timer \<Rightarrow> bool) \<Rightarrow> 'w DefaultScheduler \<Rightarrow> bool" where
  "holds_at k P d \<longleftrightarrow>
     (\<forall>t \<in> set (ChCreatedTimer d). t_id t = k \<longrightarrow> P t) \<and>
     (\<forall>t. map_of (timers d) k = Some t \<longrightarrow> P t)"

text \<open>An interval timer that, after \<open>c\<close> calls, has counter left for at most \<open>n\<close> calls in all.\<close>

definition budget :: "int \<Rightarrow> nat \<Rightarrow> 'w Timer \<Rightarrow> bool" where
  "budget n c t \<longleftrightarrow>
     Condition (t_opts t) = None \<and> 0 \<le> Counter (t_opts t) \<and> int c + Counter (t_opts t) \<le> n"

text \<open>
  An interval timer created at \<open>T\<close> whose next firing is still the first one, at offset
  \<open>I\<close>, unless \<open>L\<close> holds.
\<close>

definition unfired :: "int64 \<Rightarrow> int64 \<Rightarrow> bool \<Rightarrow> 'w Timer \<Rightarrow> bool" where
  "unfired T I L t \<longleftrightarrow>
     createAt t = T \<and> Condition (t_opts t) = None \<and> (elapse t = I \<or> L)"

subsection \<open>Callbacks with their panics taken out\<close>





subsection \<open>Concrete schedulers and callbacks\<close>

text \<open>
  The host state of the examples is a number. Each callback adds one to it; \<open>bump\<close>
  then returns, \<open>boom\<close> panics with a value, \<open>boom_nil\<close> panics with nil.
\<close>

definition bump :: "nat Func" where
  "bump = (\<lambda>w. (Suc w, Returns))"

definition boom :: "nat Func" where
  "boom = (\<lambda>w. (Suc w, Panics (Some ''boom'')))"

definition boom_nil :: "nat Func" where
  "boom_nil = (\<lambda>w. (Suc w, Panics None))"

text \<open>
  A scheduler with period 100 and the backlog, the last id given out, the timer set, the
  retirement channel, the admission channel and the state of the exit channel given;
  \<open>sched backlog\<close> is the scheduler \<open>newScheduler\<close> returns.
\<close>

definition sched_of ::
  "int \<Rightarrow> int64 \<Rightarrow> (int64 \<times> nat Timer) list \<Rightarrow> int64 list \<Rightarrow> nat Timer list \<Rightarrow> bool \<Rightarrow>
   nat DefaultScheduler" where
  "sched_of backlog last_id ts closing created ex =
     \<lparr>opts = \<lparr>Precision = 100, timerBacklog = backlog\<rparr>, incrementID = last_id, timers = ts,
      ChClosingTimer = closing, ChCreatedTimer = created, exit = ex\<rparr>"

definition sched :: "int \<Rightarrow> nat DefaultScheduler" where
  "sched backlog = sched_of backlog 0 [] [] [] False"

text \<open>
  A timer record that is not closed: its id, callback, interval, counter, condition,
  creation time and offset of the next firing.
\<close>

definition timer ::
  "int64 \<Rightarrow> nat Func option \<Rightarrow> int64 \<Rightarrow> int \<Rightarrow> (time \<Rightarrow> bool) option \<Rightarrow> int64 \<Rightarrow> int64 \<Rightarrow>
   nat Timer" where
  "timer i fn interval counter cond created e =
     \<lparr>t_opts = \<lparr>Fn = fn, Interval = interval, Counter = counter, Condition = cond\<rparr>,
      t_id = i, createAt = created, elapse = e, closed = 0\<rparr>"

section \<open>The scan, entry by entry\<close>

text \<open>
  What a visit of \<open>Range\<close> can change: the record visited and, by at most the record's
  id, the retirement channel. It calls no callback but the record's own.
\<close>

lemma pexec_events:
  "pexec i fn w = (w', es) \<Longrightarrow>
   count_list es (Called j) = (if j = i \<and> fn \<noteq> None then 1 else 0)"
  by (auto simp: pexec_def split: option.splits prod.splits)

lemma sched_append_Nil: "d\<lparr>ChClosingTimer := ChClosingTimer d @ []\<rparr> = d"
  by simp

lemma stopTimer_sched:
  "snd (snd (stopTimer t d)) =
   d\<lparr>ChClosingTimer := ChClosingTimer d @
      (if \<not> 0 <s closed t \<and> int (length (ChClosingTimer d)) < timerBacklog (opts d)
       then [t_id t] else [])\<rparr>"
  by (simp add: stopTimer_def)

lemma stopTimer_same:
  "stopTimer t d = (e, t', d') \<Longrightarrow>
   t_id t' = t_id t \<and> createAt t' = createAt t \<and> elapse t' = elapse t \<and>
   Condition (t_opts t') = Condition (t_opts t) \<and> Fn (t_opts t') = Fn (t_opts t) \<and>
   Interval (t_opts t') = Interval (t_opts t)"
  by (auto simp: stopTimer_def split: if_splits)

lemma stopTimer_id: "t_id (fst (snd (stopTimer t d))) = t_id t"
  by (simp add: stopTimer_def)

lemma cron_timer_sched:
  "cron_timer now i t d w = (t', d', w', es) \<Longrightarrow>
   d' = d\<lparr>ChClosingTimer := ChClosingTimer d @
      (if Counter (t_opts t) = 0 \<and> \<not> 0 <s closed t \<and>
          int (length (ChClosingTimer d)) < timerBacklog (opts d)
       then [t_id t] else [])\<rparr>"
  by (auto simp: cron_timer_def stopTimer_def Let_def split: if_splits option.splits prod.splits)

lemma cron_timer_frame:
  "cron_timer now i t d w = (t', d', w', es) \<Longrightarrow>
   \<exists>xs. d' = d\<lparr>ChClosingTimer := ChClosingTimer d @ xs\<rparr>"
  by (drule cron_timer_sched) blast

lemma cron_timer_same:
  "cron_timer now i t d w = (t', d', w', es) \<Longrightarrow>
   t_id t' = t_id t \<and> createAt t' = createAt t \<and>
   Condition (t_opts t') = Condition (t_opts t) \<and> Fn (t_opts t') = Fn (t_opts t) \<and>
   Interval (t_opts t') = Interval (t_opts t)"
  by (auto simp: cron_timer_def Let_def split: if_splits option.splits prod.splits
      dest: stopTimer_same)

lemma cron_timer_calls:
  "cron_timer now i t d w = (t', d', w', es) \<Longrightarrow>
   count_list es (Called j) \<le> (if j = i then 1 else 0)"
  by (auto simp: cron_timer_def Let_def split: if_splits option.splits prod.splits
      dest: pexec_events [where j = j])

lemma cron_timer_due:
  assumes "Counter (t_opts t) \<noteq> 0" and "Condition (t_opts t) = None"
    and "createAt t + elapse t \<le>s UnixNano now"
    and "cron_timer now i t d w = (t', d', w', es)"
  shows "t' = t\<lparr>elapse := elapse t + Interval (t_opts t),
               t_opts := (t_opts t)\<lparr>Counter :=
                 (if Counter (t_opts t) \<noteq> LoopForever \<and> 0 < Counter (t_opts t)
                  then Counter (t_opts t) - 1 else Counter (t_opts t))\<rparr>\<rparr>"
    and "count_list es (Called i) = (if Fn (t_opts t) = None then 0 else 1)"
  using assms
  by (auto simp: cron_timer_def Let_def split: if_splits prod.splits dest: pexec_events [where j = i])

text \<open>The whole \<open>Range\<close>: the keys stay, the ids stay, the retirement channel only grows.\<close>

lemma cron_range_keys:
  "cron_range now ts d w = (ts', d', w', es) \<Longrightarrow> map fst ts' = map fst ts"
  by (induction ts arbitrary: d w ts' d' w' es) (auto split: prod.splits)

lemma cron_range_ids:
  "cron_range now ts d w = (ts', d', w', es) \<Longrightarrow>
   map (\<lambda>(k, t). (k, t_id t)) ts' = map (\<lambda>(k, t). (k, t_id t)) ts"
proof (induction ts arbitrary: d w ts' d' w' es)
  case Nil
  then show ?case by simp
next
  case (Cons a ts)
  obtain i t where a: "a = (i, t)" by (cases a)
  obtain t1 d1 w1 es1 where c: "cron_timer now i t d w = (t1, d1, w1, es1)"
    by (cases "cron_timer now i t d w")
  obtain ts2 d2 w2 es2 where r: "cron_range now ts d1 w1 = (ts2, d2, w2, es2)"
    by (cases "cron_range now ts d1 w1")
  from Cons.prems a c r have res: "ts' = (i, t1) # ts2" by simp
  from cron_timer_same [OF c] Cons.IH [OF r] res a show ?case by simp
qed

lemma cron_range_frame:
  "cron_range now ts d w = (ts', d', w', es) \<Longrightarrow>
   \<exists>xs. d' = d\<lparr>ChClosingTimer := ChClosingTimer d @ xs\<rparr>"
proof (induction ts arbitrary: d w ts' d' w' es)
  case Nil
  then have "d' = d\<lparr>ChClosingTimer := ChClosingTimer d @ []\<rparr>" by simp
  then show ?case by blast
next
  case (Cons a ts)
  obtain i t where a: "a = (i, t)" by (cases a)
  obtain t1 d1 w1 es1 where c: "cron_timer now i t d w = (t1, d1, w1, es1)"
    by (cases "cron_timer now i t d w")
  obtain ts2 d2 w2 es2 where r: "cron_range now ts d1 w1 = (ts2, d2, w2, es2)"
    by (cases "cron_range now ts d1 w1")
  from Cons.prems a c r have d': "d' = d2" by simp
  from cron_timer_frame [OF c] obtain xs where "d1 = d\<lparr>ChClosingTimer := ChClosingTimer d @ xs\<rparr>" ..
  moreover from Cons.IH [OF r] obtain ys where "d2 = d1\<lparr>ChClosingTimer := ChClosingTimer d1 @ ys\<rparr>" ..
  ultimately have "d2 = d\<lparr>ChClosingTimer := ChClosingTimer d @ (xs @ ys)\<rparr>" by simp
  with d' show ?case by blast
qed

lemma cron_range_absent:
  "cron_range now ts d w = (ts', d', w', es) \<Longrightarrow> j \<notin> fst ` set ts \<Longrightarrow>
   count_list es (Called j) = 0"
proof (induction ts arbitrary: d w ts' d' w' es)
  case Nil
  then show ?case by simp
next
  case (Cons a ts)
  obtain i t where a: "a = (i, t)" by (cases a)
  obtain t1 d1 w1 es1 where c: "cron_timer now i t d w = (t1, d1, w1, es1)"
    by (cases "cron_timer now i t d w")
  obtain ts2 d2 w2 es2 where r: "cron_range now ts d1 w1 = (ts2, d2, w2, es2)"
    by (cases "cron_range now ts d1 w1")
  from Cons.prems a c r have es: "es = es1 @ es2" by simp
  from Cons.prems a have ji: "j \<noteq> i" and jt: "j \<notin> fst ` set ts" by auto
  from cron_timer_calls [OF c, of j] ji have "count_list es1 (Called j) = 0" by simp
  moreover from Cons.IH [OF r jt] have "count_list es2 (Called j) = 0" .
  ultimately show ?case using es by simp
qed

lemma cron_range_full:
  "\<not> int (length (ChClosingTimer d)) < timerBacklog (opts d) \<Longrightarrow>
   cron_range now ts d w = (ts', d', w', es) \<Longrightarrow> d' = d"
proof (induction ts arbitrary: d w ts' d' w' es)
  case Nil
  then show ?case by simp
next
  case (Cons a ts)
  obtain i t where a: "a = (i, t)" by (cases a)
  obtain t1 d1 w1 es1 where c: "cron_timer now i t d w = (t1, d1, w1, es1)"
    by (cases "cron_timer now i t d w")
  obtain ts2 d2 w2 es2 where r: "cron_range now ts d1 w1 = (ts2, d2, w2, es2)"
    by (cases "cron_range now ts d1 w1")
  from cron_timer_sched [OF c] Cons.prems(1) have "d1 = d" by simp
  with Cons.IH [of d w1 ts2 d2 w2 es2] Cons.prems a c r show ?case by simp
qed

text \<open>
  What the scan does to the entry under a key is what the visit of that entry does, in a
  scheduler that differs from the one the scan started in by the retirements enqueued
  before the visit.
\<close>

lemma cron_range_visit:
  assumes "distinct (map fst ts)" and "map_of ts k = Some t"
    and "cron_range now ts d w = (ts', d', w', es)"
  shows "\<exists>xs w1 t1 d2 w2 es1 ys.
           cron_timer now k t (d\<lparr>ChClosingTimer := ChClosingTimer d @ xs\<rparr>) w1 = (t1, d2, w2, es1) \<and>
           map_of ts' k = Some t1 \<and>
           count_list es (Called k) = count_list es1 (Called k) \<and>
           d' = d2\<lparr>ChClosingTimer := ChClosingTimer d2 @ ys\<rparr>"
  using assms
proof (induction ts arbitrary: d w ts' d' w' es)
  case Nil
  then show ?case by simp
next
  case (Cons a ts)
  obtain i u where a: "a = (i, u)" by (cases a)
  obtain t1 d1 w1 es1 where c: "cron_timer now i u d w = (t1, d1, w1, es1)"
    by (cases "cron_timer now i u d w")
  obtain ts2 d2 w2 es2 where r: "cron_range now ts d1 w1 = (ts2, d2, w2, es2)"
    by (cases "cron_range now ts d1 w1")
  from Cons.prems(3) a c r have res: "ts' = (i, t1) # ts2" "d' = d2" "es = es1 @ es2" by simp_all
  from Cons.prems(1) a have dist: "distinct (map fst ts)" and ni: "i \<notin> fst ` set ts" by auto
  show ?case
  proof (cases "k = i")
    case True
    with Cons.prems(2) a have tu: "u = t" by simp
    from cron_range_absent [OF r ni] have "count_list es2 (Called i) = 0" .
    moreover from cron_range_frame [OF r] obtain ys where "d2 = d1\<lparr>ChClosingTimer := ChClosingTimer d1 @ ys\<rparr>" ..
    moreover have "d\<lparr>ChClosingTimer := ChClosingTimer d @ []\<rparr> = d" by simp
    ultimately show ?thesis
      using True tu c res
      by (intro exI [of _ "[]"] exI [of _ w] exI [of _ t1] exI [of _ d1] exI [of _ w1]
          exI [of _ es1] exI [of _ ys]) simp
  next
    case False
    with Cons.prems(2) a have m: "map_of ts k = Some t" by simp
    from Cons.IH [OF dist m r] obtain xs v1 v t3 d3 w3 es3 ys where
      v: "cron_timer now k t (d1\<lparr>ChClosingTimer := ChClosingTimer d1 @ xs\<rparr>) v1 = (t3, d3, w3, es3)"
        "map_of ts2 k = Some t3" "count_list es2 (Called k) = count_list es3 (Called k)"
        "d2 = d3\<lparr>ChClosingTimer := ChClosingTimer d3 @ ys\<rparr>" by blast
    from cron_timer_frame [OF c] obtain zs where zs: "d1 = d\<lparr>ChClosingTimer := ChClosingTimer d @ zs\<rparr>" ..
    have e: "d1\<lparr>ChClosingTimer := ChClosingTimer d1 @ xs\<rparr> = d\<lparr>ChClosingTimer := ChClosingTimer d @ (zs @ xs)\<rparr>"
      using zs by simp
    from cron_timer_calls [OF c, of k] False have "count_list es1 (Called k) = 0" by simp
    with v e res False show ?thesis
      by (intro exI [of _ "zs @ xs"] exI [of _ v1] exI [of _ t3] exI [of _ d3] exI [of _ w3]
          exI [of _ es3] exI [of _ ys]) simp
  qed
qed

lemma Cron_split:
  "Cron now d w = (d', w', es) \<Longrightarrow>
   \<exists>ts' d1. cron_range now (timers d) d w = (ts', d1, w', es) \<and> d' = d1\<lparr>timers := ts'\<rparr>"
  by (auto simp: Cron_def split: prod.splits)

text \<open>A due interval timer is called once by the scan and moved on by one interval.\<close>

lemma Cron_due:
  assumes "distinct (map fst (timers d))" and "Cron now d w = (d', w', es)"
    and m: "map_of (timers d) k = Some t" and c: "Counter (t_opts t) \<noteq> 0"
    and n: "Condition (t_opts t) = None" and due: "createAt t + elapse t \<le>s UnixNano now"
  shows "count_list es (Called k) = (if Fn (t_opts t) = None then 0 else 1) \<and>
        map_of (timers d') k =
          Some (t\<lparr>elapse := elapse t + Interval (t_opts t),
                  t_opts := (t_opts t)\<lparr>Counter :=
                    (if Counter (t_opts t) \<noteq> LoopForever \<and> 0 < Counter (t_opts t)
                     then Counter (t_opts t) - 1 else Counter (t_opts t))\<rparr>\<rparr>)"
proof -
  from Cron_split [OF assms(2)] obtain ts' d1 where
    r: "cron_range now (timers d) d w = (ts', d1, w', es)" and d': "d' = d1\<lparr>timers := ts'\<rparr>"
    by blast
  from cron_range_visit [OF assms(1) m r] obtain xs w1 t1 d2 w2 es1 where
    v: "cron_timer now k t (d\<lparr>ChClosingTimer := ChClosingTimer d @ xs\<rparr>) w1 = (t1, d2, w2, es1)"
      "map_of ts' k = Some t1"
      "count_list es (Called k) = count_list es1 (Called k)" by blast
  from cron_timer_due [OF c n due v(1)] v(2,3) d' show ?thesis by simp
qed








section \<open>Panics change the log only\<close>










lemma select_step_NextPass:
  "select_step c s = Some (f, d', w', es) \<Longrightarrow> f = NextPass"
  by (auto simp: select_step_def split: prod.splits select_case.splits if_splits list.splits)



lemma tick_loop_goes_on: "map_option fst (tick_loop cs s) \<noteq> Some True"
proof (induction cs arbitrary: s)
  case Nil
  show ?case by (cases s) simp
next
  case (Cons c cs)
  show ?case
  proof (cases "select_step c s")
    case None
    then show ?thesis by simp
  next
    case (Some r)
    obtain f d1 w1 es1 where r: "r = (f, d1, w1, es1)" by (cases r)
    from select_step_NextPass [of c s f d1 w1 es1] Some r have f: "f = NextPass" by simp
    from Cons.IH [of "(d1, w1)"] Some r f show ?thesis
      by (cases "tick_loop cs (d1, w1)") auto
  qed
qed

section \<open>Well-formed schedulers\<close>

text \<open>Every step of a run keeps the scheduler well-formed while the id counter does not wrap.\<close>

lemma unat_next_id:
  fixes x :: int64
  assumes "unat x + 1 < 2 ^ 64"
  shows "unat (x + 1) = unat x + 1"
proof -
  have "unat x + unat (1 :: int64) < 2 ^ LENGTH(64)" using assms by simp
  then have "unat (x + 1) = unat x + unat (1 :: int64)" by (simp only: unat_add_lem)
  then show ?thesis by simp
qed

lemma update_mem:
  "(j, u) \<in> set (AList.update k v al) \<Longrightarrow> (j, u) \<in> set al \<or> (j = k \<and> u = v)"
  by (induction al) (auto split: if_splits)

lemma wf_NewTimer:
  assumes "wf d" and "unat (incrementID d) + 1 < 2 ^ 64"
  shows "wf (snd (NewTimer now interval fn opt d))"
proof -
  let ?i = "incrementID d + 1"
  have u: "unat ?i = unat (incrementID d) + 1" using assms(2) by (rule unat_next_id)
  have fresh: "?i \<notin> t_id ` set (ChCreatedTimer d)" "?i \<notin> fst ` set (timers d)"
    using assms(1) u by (fastforce simp: wf_def)+
  show ?thesis
    using assms(1) u fresh
    by (auto simp: wf_def NewTimer_def Let_def)
qed

lemma wf_alt:
  "wf d \<longleftrightarrow>
     (\<forall>t \<in> set (ChCreatedTimer d). unat (t_id t) \<le> unat (incrementID d)) \<and>
     (\<forall>(k, i) \<in> set (map (\<lambda>(k, t). (k, t_id t)) (timers d)). i = k \<and> unat k \<le> unat (incrementID d)) \<and>
     distinct (map t_id (ChCreatedTimer d) @ map fst (map (\<lambda>(k, t). (k, t_id t)) (timers d)))"
  by (auto simp: wf_def comp_def case_prod_beta)

lemma wf_Cron:
  assumes "wf d" and "Cron now d w = (d', w', es)"
  shows "wf d'"
proof -
  from Cron_split [OF assms(2)] obtain ts' d1 where
    r: "cron_range now (timers d) d w = (ts', d1, w', es)" and d': "d' = d1\<lparr>timers := ts'\<rparr>"
    by blast
  from cron_range_frame [OF r] obtain xs where
    d1: "d1 = d\<lparr>ChClosingTimer := ChClosingTimer d @ xs\<rparr>" ..
  from assms(1) cron_range_ids [OF r] show ?thesis
    unfolding wf_alt d' d1 by simp
qed

lemma wf_RemoveTimer:
  assumes "wf d"
  shows "wf (snd (RemoveTimer k d))"
proof (cases "map_of (timers d) k")
  case None
  with assms show ?thesis by (simp add: RemoveTimer_def)
next
  case (Some t)
  obtain e t' d1 where s: "stopTimer t d = (e, t', d1)" by (cases "stopTimer t d")
  from stopTimer_sched [of t d] s obtain xs where
    d1: "d1 = d\<lparr>ChClosingTimer := ChClosingTimer d @ xs\<rparr>" by auto
  from stopTimer_id [of t d] s have id: "t_id t' = t_id t" by simp
  from Some have kt: "(k, t) \<in> set (timers d)" by (rule map_of_SomeD)
  then have kin: "k \<in> fst ` set (timers d)" by force
  have keys: "map fst (AList.update k t' (timers d)) = map fst (timers d)"
    using kin by (simp add: update_keys)
  note mem = update_mem [of _ _ k t' "timers d"]
  have "wf (d\<lparr>ChClosingTimer := ChClosingTimer d @ xs, timers := AList.update k t' (timers d)\<rparr>)"
    using assms keys kt id by (auto simp: wf_def dest!: mem)
  with Some s d1 show ?thesis by (simp add: RemoveTimer_def)
qed

lemma wf_select_step:
  assumes "wf d" and "select_step c (d, w) = Some (f, d', w', es)"
  shows "wf d'"
proof (cases c)
  case CaseExit
  with assms show ?thesis by (auto simp: select_step_def split: if_splits)
next
  case (CaseTick now)
  with assms show ?thesis by (auto simp: select_step_def intro: wf_Cron)
next
  case CaseCreated
  with assms(2) obtain t ts where ch: "ChCreatedTimer d = t # ts"
    and d': "d' = d\<lparr>ChCreatedTimer := ts, timers := AList.update (t_id t) t (timers d)\<rparr>"
    by (auto simp: select_step_def split: list.splits)
  from assms(1) ch have nk: "t_id t \<notin> fst ` set (timers d)" by (auto simp: wf_def)
  then have keys: "map fst (AList.update (t_id t) t (timers d)) = map fst (timers d) @ [t_id t]"
    by (simp add: update_keys)
  note mem = update_mem [of _ _ "t_id t" t "timers d"]
  show ?thesis
    using assms(1) ch keys unfolding d' wf_def
    by (auto dest!: mem)
next
  case CaseClosing
  with assms(2) obtain i xs where ch: "ChClosingTimer d = i # xs"
    and d': "d' = d\<lparr>ChClosingTimer := xs, timers := AList.delete i (timers d)\<rparr>"
    by (auto simp: select_step_def split: list.splits)
  have sub: "set (AList.delete i (timers d)) \<subseteq> set (timers d)" by (auto simp: AList.delete_eq)
  have dk: "distinct (map fst (timers d)) \<Longrightarrow> distinct (map fst (AList.delete i (timers d)))"
    by (rule distinct_delete)
  show ?thesis
    using assms(1) sub dk unfolding d' wf_def
    by (auto simp: delete_keys)
qed

lemma exec_wf:
  assumes "wf d" and "unat (incrementID d) + 1 < 2 ^ 64" and "exec a (d, w) = Some (d', w', tr)"
  shows "wf d' \<and> unat (incrementID d) \<le> unat (incrementID d') \<and>
         unat (incrementID d') \<le> unat (incrementID d) + 1"
proof (cases a)
  case (CallNewTimer now interval fn opt)
  have "incrementID (snd (NewTimer now interval fn opt d)) = incrementID d + 1"
    by (simp add: NewTimer_def Let_def)
  with assms CallNewTimer wf_NewTimer [OF assms(1,2)] unat_next_id [OF assms(2)]
  show ?thesis by auto
next
  case (CallRemoveTimer k)
  have "incrementID (snd (RemoveTimer k d)) = incrementID d"
    by (simp add: RemoveTimer_def stopTimer_def split: option.splits)
  with assms CallRemoveTimer wf_RemoveTimer [OF assms(1)] show ?thesis by auto
next
  case CallStop
  have "wf (d\<lparr>exit := True\<rparr>) = wf d" by (simp add: wf_def)
  with assms CallStop show ?thesis by (auto simp: Stop_def split: if_splits)
next
  case (Pass c)
  with assms(3) obtain es where s: "select_step c (d, w) = Some (NextPass, d', w', es)"
    by (auto split: option.splits flow.splits)
  have "incrementID d' = incrementID d"
    using s by (auto simp: select_step_def split: select_case.splits if_splits list.splits
        dest!: Cron_split cron_range_frame)
  with wf_select_step [OF assms(1) s] show ?thesis by simp
qed

lemma newScheduler_wf: "newScheduler options = Inr d \<Longrightarrow> wf d"
  by (auto simp: newScheduler_def wf_def split: if_splits)

text \<open>So every scheduler a run reaches from a fresh one is well-formed.\<close>

lemma run_wf:
  "run acts (d, w) = Some (d', w', tr) \<Longrightarrow> wf d \<Longrightarrow>
   unat (incrementID d) + length acts < 2 ^ 64 \<Longrightarrow> wf d'"
proof (induction acts arbitrary: d w tr)
  case Nil
  then show ?case by simp
next
  case (Cons a as)
  from Cons.prems(1) obtain d1 w1 tr1 tr2 where
    ex: "exec a (d, w) = Some (d1, w1, tr1)" and
    rn: "run as (d1, w1) = Some (d', w', tr2)"
    by (auto split: option.splits)
  from Cons.prems(3) have nw: "unat (incrementID d) + 1 < 2 ^ 64" by simp
  from exec_wf [OF Cons.prems(2) nw ex] have
    wf1: "wf d1" and hi: "unat (incrementID d1) \<le> unat (incrementID d) + 1" by simp_all
  from hi Cons.prems(3) have "unat (incrementID d1) + length as < 2 ^ 64" by simp
  from Cons.IH [OF rn wf1 this] show ?case .
qed

lemma passes_wf:
  "run (replicate n (Pass c)) (d, w) = Some (d', w', tr) \<Longrightarrow> wf d \<Longrightarrow> wf d'"
proof (induction n arbitrary: d w tr)
  case 0
  then show ?case by simp
next
  case (Suc n)
  from Suc.prems(1) obtain d1 w1 tr1 tr2 where
    ex: "exec (Pass c) (d, w) = Some (d1, w1, tr1)" and
    rn: "run (replicate n (Pass c)) (d1, w1) = Some (d', w', tr2)"
    by (auto split: option.splits)
  from ex obtain es where "select_step c (d, w) = Some (NextPass, d1, w1, es)"
    by (auto split: option.splits flow.splits)
  from wf_select_step [OF Suc.prems(2) this] have "wf d1" .
  then show ?case by (rule Suc.IH [OF rn])
qed

lemma fresh_run_wf:
  assumes "newScheduler options = Inr d" and "length acts < 2 ^ 64"
    and "run acts (d, w) = Some (d', w', tr)"
  shows "wf d'"
proof -
  from assms(1) have "wf d" by (rule newScheduler_wf)
  moreover from assms(1) have "incrementID d = 0" by (auto simp: newScheduler_def split: if_splits)
  ultimately show ?thesis using run_wf [OF assms(3)] assms(2) by simp
qed

section \<open>One timer along a run\<close>

text \<open>
  A step that is not a scan keeps a property of the records of one id, if cancelling
  keeps it; a scan turns it into what the visit of the record makes of it.
\<close>

lemma holds_at_mono:
  "holds_at k P d \<Longrightarrow> (\<And>t. P t \<Longrightarrow> Q t) \<Longrightarrow> holds_at k Q d"
  by (auto simp: holds_at_def)

lemma exec_holds_at:
  assumes ex: "exec a (d, w) = Some (d', w', tr)"
    and nt: "\<And>now. a \<noteq> Pass (CaseTick now)"
    and k: "unat k \<le> unat (incrementID d)"
    and nw: "unat (incrementID d) + 1 < 2 ^ 64"
    and h: "holds_at k P d"
    and st: "\<And>t. P t \<Longrightarrow> P (t\<lparr>closed := 1\<rparr>) \<and> P (t\<lparr>t_opts := (t_opts t)\<lparr>Counter := 0\<rparr>\<rparr>)"
  shows "holds_at k P d' \<and> tr = []"
proof (cases a)
  case (CallNewTimer now interval fn opt)
  have "incrementID d + 1 \<noteq> k"
    using k unat_next_id [OF nw] by auto
  with ex h CallNewTimer show ?thesis
    by (auto simp: NewTimer_def Let_def holds_at_def split: if_splits)
next
  case (CallRemoveTimer j)
  show ?thesis
  proof (cases "map_of (timers d) j")
    case None
    with ex h CallRemoveTimer show ?thesis by (auto simp: RemoveTimer_def)
  next
    case (Some t)
    obtain e t' d1 where s: "stopTimer t d = (e, t', d1)" by (cases "stopTimer t d")
    from stopTimer_sched [of t d] s have
      d1: "ChCreatedTimer d1 = ChCreatedTimer d" "timers d1 = timers d" by auto
    from s have t': "t' = t \<or> t' = t\<lparr>closed := 1\<rparr> \<or> t' = t\<lparr>t_opts := (t_opts t)\<lparr>Counter := 0\<rparr>\<rparr>"
      by (auto simp: stopTimer_def split: if_splits)
    have "P t'" if "j = k"
    proof -
      from that Some h have "P t" by (simp add: holds_at_def)
      with t' st [of t] show ?thesis by auto
    qed
    with ex h CallRemoveTimer Some s d1 show ?thesis
      by (auto simp: RemoveTimer_def holds_at_def update_conv' split: if_splits)
  qed
next
  case CallStop
  with ex h show ?thesis by (auto simp: Stop_def holds_at_def split: if_splits)
next
  case (Pass c)
  with ex obtain es where s: "select_step c (d, w) = Some (NextPass, d', w', es)"
    and tr: "tr = stamp c es"
    by (auto split: option.splits flow.splits)
  show ?thesis
  proof (cases c)
    case CaseExit
    with s tr h show ?thesis by (auto simp: select_step_def stamp_def split: if_splits)
  next
    case (CaseTick now)
    with nt [of now] Pass show ?thesis by simp
  next
    case CaseCreated
    with s tr h show ?thesis
      by (auto simp: select_step_def stamp_def holds_at_def update_conv' split: list.splits if_splits)
  next
    case CaseClosing
    with s tr h show ?thesis
      by (auto simp: select_step_def stamp_def holds_at_def delete_conv' split: list.splits if_splits)
  qed
qed

lemma Cron_holds_at:
  assumes wf: "wf d" and h: "holds_at k P d" and c: "Cron now d w = (d', w', es)"
    and step: "\<And>t dv wv t1 d2 w2 es1. P t \<Longrightarrow> cron_timer now k t dv wv = (t1, d2, w2, es1) \<Longrightarrow>
                 Q t1 (count_list es1 (Called k))"
    and idle: "\<And>t. P t \<Longrightarrow> Q t 0"
  shows "holds_at k (\<lambda>t. Q t (count_list es (Called k))) d' \<and>
         (0 < count_list es (Called k) \<longrightarrow> map_of (timers d') k \<noteq> None)"
proof -
  from Cron_split [OF c] obtain ts' d1 where
    r: "cron_range now (timers d) d w = (ts', d1, w', es)" and d': "d' = d1\<lparr>timers := ts'\<rparr>"
    by blast
  from cron_range_frame [OF r] obtain xs where
    d1: "d1 = d\<lparr>ChClosingTimer := ChClosingTimer d @ xs\<rparr>" ..
  from d' d1 have ch: "ChCreatedTimer d' = ChCreatedTimer d" and tm: "timers d' = ts'" by simp_all
  from wf have dist: "distinct (map fst (timers d))" by (simp add: wf_def)
  show ?thesis
  proof (cases "map_of (timers d) k")
    case None
    then have nk: "k \<notin> fst ` set (timers d)" by (simp add: map_of_eq_None_iff)
    from cron_range_absent [OF r nk] have z: "count_list es (Called k) = 0" .
    from cron_range_keys [OF r] nk have "k \<notin> fst ` set ts'"
      by (metis list.set_map)
    then have "map_of ts' k = None" by (simp add: map_of_eq_None_iff)
    with z h idle ch tm show ?thesis by (auto simp: holds_at_def)
  next
    case (Some t)
    from cron_range_visit [OF dist Some r] obtain ys w1 t1 d2 w2 es1 where
      v: "cron_timer now k t (d\<lparr>ChClosingTimer := ChClosingTimer d @ ys\<rparr>) w1 = (t1, d2, w2, es1)"
        "map_of ts' k = Some t1"
        "count_list es (Called k) = count_list es1 (Called k)" by blast
    from Some h have "P t" by (simp add: holds_at_def)
    from step [OF this v(1)] v(3) have q: "Q t1 (count_list es (Called k))" by simp
    from Some have "k \<in> fst ` set (timers d)" by (force dest: map_of_SomeD)
    with wf have "k \<notin> t_id ` set (ChCreatedTimer d)" by (auto simp: wf_def)
    with q v(2) ch tm show ?thesis by (auto simp: holds_at_def)
  qed
qed

lemma NewTimer_holds_at:
  assumes wf: "wf d" and nw: "unat (incrementID d) + 1 < 2 ^ 64"
    and nt: "NewTimer now interval fn opt d = (Some k, d1)"
    and P: "P \<lparr>t_opts = admitted_opts interval fn opt, t_id = k, createAt = UnixNano now,
              elapse = interval, closed = 0\<rparr>"
  shows "wf d1 \<and> unat k \<le> unat (incrementID d1) \<and> incrementID d1 = incrementID d + 1 \<and>
         holds_at k P d1"
proof -
  from nt have k: "k = incrementID d + 1"
    and d1: "d1 = d\<lparr>incrementID := k, ChCreatedTimer := ChCreatedTimer d @
        [\<lparr>t_opts = admitted_opts interval fn opt, t_id = k, createAt = UnixNano now,
          elapse = interval, closed = 0\<rparr>]\<rparr>"
    by (auto simp: NewTimer_def Let_def admitted_opts_def split: if_splits)
  have u: "unat k = unat (incrementID d) + 1" unfolding k using nw by (rule unat_next_id)
  from wf u have f1: "\<forall>t \<in> set (ChCreatedTimer d). t_id t \<noteq> k" by (fastforce simp: wf_def)
  from wf u have "k \<notin> fst ` set (timers d)" by (fastforce simp: wf_def)
  then have f2: "map_of (timers d) k = None" by (simp add: map_of_eq_None_iff)
  from wf_NewTimer [OF wf nw, of now interval fn opt] nt have "wf d1" by simp
  with f1 f2 P show ?thesis unfolding d1 by (simp add: holds_at_def k)
qed

lemma cron_timer_budget:
  assumes "budget n c t" and "cron_timer now k t d w = (t1, d2, w2, es1)"
  shows "budget n (c + count_list es1 (Called k)) t1"
proof (cases "Counter (t_opts t) = 0")
  case True
  with assms show ?thesis
    by (auto simp: cron_timer_def stopTimer_def budget_def split: if_splits)
next
  case nz: False
  show ?thesis
  proof (cases "createAt t + elapse t \<le>s UnixNano now")
    case True
    obtain w1 es where p: "pexec k (Fn (t_opts t)) w = (w1, es)"
      by (cases "pexec k (Fn (t_opts t)) w")
    from pexec_events [OF p, of k] have "count_list es (Called k) \<le> 1" by simp
    with assms nz True p show ?thesis
      by (auto simp: cron_timer_def budget_def Let_def LoopForever_def)
  next
    case False
    with assms nz show ?thesis by (auto simp: cron_timer_def budget_def)
  qed
qed

lemma run_budget:
  "run acts (d, w) = Some (d', w', tr) \<Longrightarrow> wf d \<Longrightarrow>
   unat (incrementID d) + length acts < 2 ^ 64 \<Longrightarrow> unat k \<le> unat (incrementID d) \<Longrightarrow>
   int c \<le> n \<Longrightarrow> holds_at k (budget n c) d \<Longrightarrow>
   int c + int (count_list (map snd tr) (Called k)) \<le> n"
proof (induction acts arbitrary: d w c tr)
  case Nil
  then show ?case by simp
next
  case (Cons a as)
  from Cons.prems(1) obtain d1 w1 tr1 tr2 where
    ex: "exec a (d, w) = Some (d1, w1, tr1)" and
    rn: "run as (d1, w1) = Some (d', w', tr2)" and tr: "tr = tr1 @ tr2"
    by (auto split: option.splits)
  from Cons.prems(3) have nw: "unat (incrementID d) + 1 < 2 ^ 64" by simp
  from exec_wf [OF Cons.prems(2) nw ex] have
    wf1: "wf d1" and lo: "unat (incrementID d) \<le> unat (incrementID d1)"
    and hi: "unat (incrementID d1) \<le> unat (incrementID d) + 1" by simp_all
  from hi Cons.prems(3) have nw1: "unat (incrementID d1) + length as < 2 ^ 64" by simp
  from lo Cons.prems(4) have k1: "unat k \<le> unat (incrementID d1)" by simp
  let ?m = "count_list (map snd tr1) (Called k)"
  have step: "int (c + ?m) \<le> n \<and> holds_at k (budget n (c + ?m)) d1"
  proof (cases "\<exists>now. a = Pass (CaseTick now)")
    case True
    then obtain now where a: "a = Pass (CaseTick now)" ..
    with ex obtain es where cr: "Cron now d w = (d1, w1, es)" and tr1: "tr1 = map (Pair now) es"
      by (auto simp: select_step_def stamp_def split: prod.splits)
    from tr1 have m: "?m = count_list es (Called k)" by (simp add: comp_def)
    have "holds_at k (\<lambda>t. budget n (c + count_list es (Called k)) t) d1 \<and>
         (0 < count_list es (Called k) \<longrightarrow> map_of (timers d1) k \<noteq> None)"
    proof (rule Cron_holds_at [OF Cons.prems(2) Cons.prems(6) cr])
      show "budget n (c + count_list es1 (Called k)) t1"
        if "budget n c t" and "cron_timer now k t dv wv = (t1, d2, w2, es1)"
        for t dv wv t1 d2 w2 es1
        using that by (rule cron_timer_budget)
      show "budget n (c + 0) t" if "budget n c t" for t
        using that by simp
    qed
    then have hq: "holds_at k (budget n (c + count_list es (Called k))) d1"
      and ex1: "0 < count_list es (Called k) \<longrightarrow> map_of (timers d1) k \<noteq> None"
      by simp_all
    have "int (c + count_list es (Called k)) \<le> n"
    proof (cases "0 < count_list es (Called k)")
      case True
      with ex1 obtain t1 where "map_of (timers d1) k = Some t1" by auto
      with hq have "budget n (c + count_list es (Called k)) t1" by (simp add: holds_at_def)
      then show ?thesis by (simp add: budget_def)
    next
      case False
      with Cons.prems(5) show ?thesis by simp
    qed
    with hq m show ?thesis by simp
  next
    case False
    then have nt: "\<And>now. a \<noteq> Pass (CaseTick now)" by simp
    have st: "\<And>t. budget n c t \<Longrightarrow>
        budget n c (t\<lparr>closed := 1\<rparr>) \<and> budget n c (t\<lparr>t_opts := (t_opts t)\<lparr>Counter := 0\<rparr>\<rparr>)"
      using Cons.prems(5) by (simp add: budget_def)
    from exec_holds_at [OF ex nt Cons.prems(4) nw Cons.prems(6) st]
    have "holds_at k (budget n c) d1" "tr1 = []" by simp_all
    with Cons.prems(5) show ?thesis by simp
  qed
  from Cons.IH [OF rn wf1 nw1 k1 _ _, of "c + ?m"] step
  have "int (c + ?m) + int (count_list (map snd tr2) (Called k)) \<le> n" by simp
  with tr show ?case by simp
qed

lemma cron_timer_unfired:
  assumes u: "unfired T I L t" and c: "cron_timer now k t d w = (t1, d2, w2, es1)"
    and no: "sint (T + I) = S"
    and L: "L \<Longrightarrow> S \<le> sint (UnixNano now) \<and> L'"
    and L': "S \<le> sint (UnixNano now) \<Longrightarrow> L'"
  shows "unfired T I L' t1 \<and> (0 < count_list es1 (Called k) \<longrightarrow> S \<le> sint (UnixNano now))"
proof (cases "Counter (t_opts t) = 0")
  case True
  with u c L show ?thesis
    by (auto simp: cron_timer_def stopTimer_def unfired_def split: if_splits)
next
  case nz: False
  from u have cn: "Condition (t_opts t) = None" by (simp add: unfired_def)
  show ?thesis
  proof (cases "createAt t + elapse t \<le>s UnixNano now")
    case True
    have s: "S \<le> sint (UnixNano now)"
    proof (cases "elapse t = I")
      case True
      with \<open>createAt t + elapse t \<le>s UnixNano now\<close> u no show ?thesis
        by (simp add: unfired_def word_sle_eq)
    next
      case False
      with u L show ?thesis by (simp add: unfired_def)
    qed
    with L' have "L'" .
    with u c nz cn True s show ?thesis
      by (auto simp: cron_timer_def unfired_def Let_def split: prod.splits)
  next
    case False
    with u c nz cn L show ?thesis by (auto simp: cron_timer_def unfired_def)
  qed
qed

lemma ticks_other: "(\<And>now. a \<noteq> Pass (CaseTick now)) \<Longrightarrow> ticks (a # as) = ticks as"
  by (cases "(a # as)" rule: ticks.cases) auto

lemma run_unfired:
  "run acts (d, w) = Some (d', w', tr) \<Longrightarrow> wf d \<Longrightarrow>
   unat (incrementID d) + length acts < 2 ^ 64 \<Longrightarrow> unat k \<le> unat (incrementID d) \<Longrightarrow>
   sorted (ticks acts) \<Longrightarrow> sint (T + I) = S \<Longrightarrow>
   holds_at k (unfired T I (\<forall>x \<in> set (ticks acts). S \<le> x)) d \<Longrightarrow>
   \<forall>(now, e) \<in> set tr. e = Called k \<longrightarrow> S \<le> sint (UnixNano now)"
proof (induction acts arbitrary: d w tr)
  case Nil
  then show ?case by simp
next
  case (Cons a as)
  from Cons.prems(1) obtain d1 w1 tr1 tr2 where
    ex: "exec a (d, w) = Some (d1, w1, tr1)" and
    rn: "run as (d1, w1) = Some (d', w', tr2)" and tr: "tr = tr1 @ tr2"
    by (auto split: option.splits)
  from Cons.prems(3) have nw: "unat (incrementID d) + 1 < 2 ^ 64" by simp
  from exec_wf [OF Cons.prems(2) nw ex] have
    wf1: "wf d1" and lo: "unat (incrementID d) \<le> unat (incrementID d1)"
    and hi: "unat (incrementID d1) \<le> unat (incrementID d) + 1" by simp_all
  from hi Cons.prems(3) have nw1: "unat (incrementID d1) + length as < 2 ^ 64" by simp
  from lo Cons.prems(4) have k1: "unat k \<le> unat (incrementID d1)" by simp
  let ?L = "\<forall>x \<in> set (ticks (a # as)). S \<le> x"
  let ?L' = "\<forall>x \<in> set (ticks as). S \<le> x"
  have step: "sorted (ticks as) \<and> holds_at k (unfired T I ?L') d1 \<and>
      (\<forall>(now, e) \<in> set tr1. e = Called k \<longrightarrow> S \<le> sint (UnixNano now))"
  proof (cases "\<exists>now. a = Pass (CaseTick now)")
    case True
    then obtain now where a: "a = Pass (CaseTick now)" ..
    with ex obtain es where cr: "Cron now d w = (d1, w1, es)" and tr1: "tr1 = map (Pair now) es"
      by (auto simp: select_step_def stamp_def split: prod.splits)
    from a Cons.prems(5) have so: "sorted (ticks as)" and
      le: "\<forall>x \<in> set (ticks as). sint (UnixNano now) \<le> x" by simp_all
    have LL: "?L \<Longrightarrow> S \<le> sint (UnixNano now) \<and> ?L'" using a by simp
    have L': "S \<le> sint (UnixNano now) \<Longrightarrow> ?L'" using le by auto
    let ?m = "count_list es (Called k)"
    have "holds_at k (\<lambda>t. unfired T I ?L' t \<and> (0 < ?m \<longrightarrow> S \<le> sint (UnixNano now))) d1 \<and>
         (0 < ?m \<longrightarrow> map_of (timers d1) k \<noteq> None)"
    proof (rule Cron_holds_at [OF Cons.prems(2) Cons.prems(7) cr])
      show "unfired T I ?L' t1 \<and> (0 < count_list es1 (Called k) \<longrightarrow> S \<le> sint (UnixNano now))"
        if "unfired T I ?L t" and "cron_timer now k t dv wv = (t1, d2, w2, es1)"
        for t dv wv t1 d2 w2 es1
        using that(1,2) Cons.prems(6) LL L' by (rule cron_timer_unfired)
      show "unfired T I ?L' t \<and> ((0::nat) < 0 \<longrightarrow> S \<le> sint (UnixNano now))"
        if "unfired T I ?L t" for t
        using that LL by (auto simp: unfired_def)
    qed
    then have hq: "holds_at k (\<lambda>t. unfired T I ?L' t \<and> (0 < ?m \<longrightarrow> S \<le> sint (UnixNano now))) d1"
      and ex1: "0 < ?m \<longrightarrow> map_of (timers d1) k \<noteq> None" by simp_all
    from hq have h1: "holds_at k (unfired T I ?L') d1" by (rule holds_at_mono) simp
    have "S \<le> sint (UnixNano now)" if "Called k \<in> set es"
    proof -
      from that count_list_0_iff [of es "Called k"] have "0 < ?m" by simp
      moreover with ex1 obtain t1 where "map_of (timers d1) k = Some t1" by auto
      ultimately show ?thesis using hq by (auto simp: holds_at_def)
    qed
    with so h1 tr1 show ?thesis by auto
  next
    case False
    then have nt: "\<And>now. a \<noteq> Pass (CaseTick now)" by simp
    from ticks_other [OF nt] have te: "ticks (a # as) = ticks as" .
    have st: "\<And>t. unfired T I ?L t \<Longrightarrow>
        unfired T I ?L (t\<lparr>closed := 1\<rparr>) \<and> unfired T I ?L (t\<lparr>t_opts := (t_opts t)\<lparr>Counter := 0\<rparr>\<rparr>)"
      by (simp add: unfired_def)
    from exec_holds_at [OF ex nt Cons.prems(4) nw Cons.prems(7) st]
    have "holds_at k (unfired T I ?L) d1" "tr1 = []" by simp_all
    with Cons.prems(5) te show ?thesis by simp
  qed
  from Cons.IH [OF rn wf1 nw1 k1 _ Cons.prems(6)] step
  have "\<forall>(now, e) \<in> set tr2. e = Called k \<longrightarrow> S \<le> sint (UnixNano now)" by simp
  with step tr show ?case by auto
qed

text \<open>A property of the records of one id that cancelling and scanning keep holds along a run.\<close>

lemma run_holds_at:
  assumes "run acts (d, w) = Some (d', w', tr)" and "wf d"
    and "unat (incrementID d) + length acts < 2 ^ 64" and "unat k \<le> unat (incrementID d)"
    and "holds_at k P d"
    and st: "\<And>t. P t \<Longrightarrow> P (t\<lparr>closed := 1\<rparr>) \<and> P (t\<lparr>t_opts := (t_opts t)\<lparr>Counter := 0\<rparr>\<rparr>)"
    and cr: "\<And>t now dv wv t1 d2 w2 es1. P t \<Longrightarrow> cron_timer now k t dv wv = (t1, d2, w2, es1) \<Longrightarrow> P t1"
  shows "wf d' \<and> holds_at k P d'"
  using assms(1-5)
proof (induction acts arbitrary: d w tr)
  case Nil
  then show ?case by simp
next
  case (Cons a as)
  from Cons.prems(1) obtain d1 w1 tr1 tr2 where
    ex: "exec a (d, w) = Some (d1, w1, tr1)" and
    rn: "run as (d1, w1) = Some (d', w', tr2)"
    by (auto split: option.splits)
  from Cons.prems(3) have nw: "unat (incrementID d) + 1 < 2 ^ 64" by simp
  from exec_wf [OF Cons.prems(2) nw ex] have
    wf1: "wf d1" and lo: "unat (incrementID d) \<le> unat (incrementID d1)"
    and hi: "unat (incrementID d1) \<le> unat (incrementID d) + 1" by simp_all
  from hi Cons.prems(3) have nw1: "unat (incrementID d1) + length as < 2 ^ 64" by simp
  from lo Cons.prems(4) have k1: "unat k \<le> unat (incrementID d1)" by simp
  have h1: "holds_at k P d1"
  proof (cases "\<exists>now. a = Pass (CaseTick now)")
    case True
    then obtain now where a: "a = Pass (CaseTick now)" ..
    with ex obtain es where c: "Cron now d w = (d1, w1, es)"
      by (auto simp: select_step_def stamp_def split: prod.splits)
    have "holds_at k (\<lambda>t. P t) d1 \<and> (0 < count_list es (Called k) \<longrightarrow> map_of (timers d1) k \<noteq> None)"
      by (rule Cron_holds_at [OF Cons.prems(2) Cons.prems(5) c, where Q = "\<lambda>t m. P t"])
        (auto intro: cr)
    then show ?thesis by simp
  next
    case False
    then have nt: "\<And>now. a \<noteq> Pass (CaseTick now)" by simp
    from exec_holds_at [OF ex nt Cons.prems(4) nw Cons.prems(5) st] show ?thesis by simp
  qed
  from Cons.IH [OF rn wf1 nw1 k1 h1] show ?case .
qed

lemma cron_timer_closed:
  "0 <s closed t \<Longrightarrow> cron_timer now k t d w = (t1, d2, w2, es1) \<Longrightarrow> 0 <s closed t1"
  by (auto simp: cron_timer_def stopTimer_def Let_def split: if_splits option.splits prod.splits)

lemma drain:
  "ChCreatedTimer d = ts @ [t] \<Longrightarrow>
   \<exists>d2. run (replicate (Suc (length ts)) (Pass CaseCreated)) (d, w) = Some (d2, w, [])
      \<and> map_of (timers d2) (t_id t) = Some t \<and> ChCreatedTimer d2 = []"
proof (induction ts arbitrary: d)
  case Nil
  then show ?case by (simp add: select_step_def stamp_def update_conv')
next
  case (Cons a ts)
  let ?d1 = "d\<lparr>ChCreatedTimer := ts @ [t], timers := AList.update (t_id a) a (timers d)\<rparr>"
  have "ChCreatedTimer ?d1 = ts @ [t]" by simp
  from Cons.IH [OF this] obtain d2 where
    "run (replicate (Suc (length ts)) (Pass CaseCreated)) (?d1, w) = Some (d2, w, [])"
    "map_of (timers d2) (t_id t) = Some t" "ChCreatedTimer d2 = []" by blast
  moreover have "exec (Pass CaseCreated) (d, w) = Some (?d1, w, [])"
    using Cons.prems by (simp add: select_step_def stamp_def)
  ultimately show ?case by simp
qed

section \<open>Evaluating the examples\<close>

lemmas example_defs = sched_def sched_of_def timer_def bump_def boom_def boom_nil_def LoopForever_def

lemmas operation_defs = Cron_def cron_timer_def pexec_def stopTimer_def RemoveTimer_def NewTimer_def
  select_step_def stamp_def Stop_def Start_def Let_def admitted_opts_def newScheduler_def
  word_sle_eq word_sless_alt wf_def recover_def due_def about_def

section \<open>C1: the exit signal\<close>

text \<open>
  C1 says that the tick loop ends at its next \<open>select\<close> once \<open>Stop\<close> has closed the exit
  channel, stops the ticker, and handles no tick, admission or retirement afterwards.
  The code does not do that: the \<open>break\<close> of the exit case leaves the \<open>select\<close>, not the
  \<open>for\<close>, so no sequence of passes reaches \<open>ticker.Stop()\<close>; and on a fresh scheduler
  on which \<open>NewTimer\<close> and then \<open>Stop\<close> have been called, the passes exit, admission
  and tick leave the loop going, the timer admitted and its callback called.
\<close>

theorem C1_exit_does_not_end_loop:
  "map_option fst (tick_loop cs (d, w)) \<noteq> Some True \<and>
   NewTimer (Time 100) 10 (Some bump) [] (sched 1)
     = (Some 1, sched_of 1 1 [] [] [timer 1 (Some bump) 10 (- 1) None 100 10] False) \<and>
   Stop (sched_of 1 1 [] [] [timer 1 (Some bump) 10 (- 1) None 100 10] False)
     = Inr (sched_of 1 1 [] [] [timer 1 (Some bump) 10 (- 1) None 100 10] True) \<and>
   Start [CaseExit, CaseCreated, CaseTick (Time 110)]
       (sched_of 1 1 [] [] [timer 1 (Some bump) 10 (- 1) None 100 10] True, 0)
     = Inr (Some (False, sched_of 1 1 [(1, timer 1 (Some bump) 10 (- 1) None 100 20)] [] [] True,
                  1, [Called 1]))"
  using tick_loop_goes_on [of cs "(d, w)"]
  by (simp add: example_defs operation_defs)

section \<open>C2: the arguments of NewTimer\<close>

text \<open>
  C2, as the code has it: \<open>NewTimer\<close> checks neither argument and has no error result.
  For every interval, non-positive ones too, and every callback, also a nil one, a call
  made while the admission channel has room allocates the next id, enqueues a record with
  that id, the clock reading and \<open>elapse = interval\<close>, and returns the id.
\<close>

theorem C2_NewTimer_admits_any_arguments:
  "int (length (ChCreatedTimer d)) < timerBacklog (opts d) \<Longrightarrow>
   NewTimer now interval fn opt d =
     (Some (incrementID d + 1),
      d\<lparr>incrementID := incrementID d + 1,
        ChCreatedTimer := ChCreatedTimer d @
          [\<lparr>t_opts = admitted_opts interval fn opt, t_id = incrementID d + 1,
            createAt = UnixNano now, elapse = interval, closed = 0\<rparr>]\<rparr>)"
  by (simp add: NewTimer_def admitted_opts_def Let_def)

text \<open>The hypothesis holds on a fresh scheduler of backlog 1, here with interval 0 and no callback.\<close>

theorem C2_NewTimer_admits_any_arguments_witness:
  "int (length (ChCreatedTimer (sched 1))) < timerBacklog (opts (sched 1)) \<and>
   NewTimer (Time 5) 0 None [] (sched 1) =
     (Some 1, (sched 1)\<lparr>incrementID := 1, ChCreatedTimer := [timer 1 None 0 (- 1) None 5 0]\<rparr>)"
  using C2_NewTimer_admits_any_arguments [of "sched 1" "Time 5" 0 None "[]"]
  by (simp add: example_defs operation_defs)

text \<open>
  C2 as stated fails: with interval 0 and a nil callback \<open>NewTimer\<close> returns the id 1 and
  the record is in the admission channel.
\<close>

theorem C2_invalid_arguments_counterexample:
  "NewTimer (Time 5) 0 None [] (sched 1)
     = (Some 1, sched_of 1 1 [] [] [timer 1 None 0 (- 1) None 5 0] False)"
  by (simp add: example_defs operation_defs)

section \<open>C3: Stop, twice\<close>

text \<open>
  C3, as the code has it: \<open>Stop\<close> is not idempotent. The first call closes the exit
  channel; a second call on the same scheduler panics (close of a closed channel), the
  signal staying fired.
\<close>

theorem C3_second_Stop_panics:
  "Stop d = Inr d1 \<Longrightarrow> exit d1 \<and> Stop d1 = Inl CloseOfClosedChannel"
  by (auto simp: Stop_def split: if_splits)

text \<open>The hypothesis holds on a fresh scheduler.\<close>

theorem C3_second_Stop_panics_witness:
  "Stop (sched 1) = Inr (sched_of 1 0 [] [] [] True)
   \<and> exit (sched_of 1 0 [] [] [] True)
   \<and> Stop (sched_of 1 0 [] [] [] True) = Inl CloseOfClosedChannel"
  using C3_second_Stop_panics [of "sched 1" "sched_of 1 0 [] [] [] True"]
  by (simp add: example_defs operation_defs)

text \<open>
  C3 as stated fails: on a fresh scheduler the first \<open>Stop\<close> returns and the second,
  on the scheduler the first one left, faults.
\<close>

theorem C3_Stop_twice_counterexample:
  "newScheduler \<lparr>Precision = 100, timerBacklog = 1\<rparr> = Inr (sched 1)
   \<and> Stop (sched 1) = Inr (sched_of 1 0 [] [] [] True)
   \<and> Stop (sched_of 1 0 [] [] [] True) = Inl CloseOfClosedChannel"
  by (simp add: example_defs operation_defs)

section \<open>C4: RemoveTimer, twice\<close>

text \<open>
  C4, as the code has it, for a call of \<open>RemoveTimer\<close> that returns nil. If that call
  enqueued the id (the retirement channel had room, \<open>closed\<close> was set), then after any
  run of producer calls and loop passes a further \<open>RemoveTimer\<close> on the id changes
  nothing, so the id is not enqueued again, and returns \<open>ErrCloseClosedTimer\<close> while the
  record is in the timer set and \<open>ErrTimerNotFound\<close> once it has left it. If that call
  found the channel full and set the counter to 0, which leaves \<open>closed\<close> unset, a second
  call right after it returns nil again.
\<close>

theorem C4_second_RemoveTimer:
  assumes "wf d" and "unat (incrementID d) + length acts < 2 ^ 64"
    and "RemoveTimer k d = (None, d1)" and "run acts (d1, w) = Some (d2, w2, tr)"
  shows "if int (length (ChClosingTimer d)) < timerBacklog (opts d)
         then RemoveTimer k d2 =
                (Some (if map_of (timers d2) k = None then ErrTimerNotFound else ErrCloseClosedTimer), d2)
         else RemoveTimer k d1 = (None, d1)"
proof (cases "int (length (ChClosingTimer d)) < timerBacklog (opts d)")
  case False
  with assms(3) show ?thesis
    by (auto simp: RemoveTimer_def stopTimer_def update_conv' word_sless_alt
        split: option.splits if_splits)
next
  case True
  from assms(3) obtain t where m: "map_of (timers d) k = Some t"
    by (auto simp: RemoveTimer_def split: option.splits)
  with assms(3) True have d1: "d1 = d\<lparr>ChClosingTimer := ChClosingTimer d @ [t_id t],
      timers := AList.update k (t\<lparr>closed := 1\<rparr>) (timers d)\<rparr>"
    by (auto simp: RemoveTimer_def stopTimer_def split: if_splits)
  from m have kin: "k \<in> fst ` set (timers d)" by (force dest: map_of_SomeD)
  with assms(1) have kb: "unat k \<le> unat (incrementID d)" and nch: "k \<notin> t_id ` set (ChCreatedTimer d)"
    by (auto simp: wf_def)
  from wf_RemoveTimer [OF assms(1), of k] assms(3) have wf1: "wf d1" by simp
  have h: "holds_at k (\<lambda>t. 0 <s closed t) d1"
    using nch by (auto simp: d1 holds_at_def update_conv' word_sless_alt)
  have i1: "incrementID d1 = incrementID d" by (simp add: d1)
  have "wf d2 \<and> holds_at k (\<lambda>t. 0 <s closed t) d2"
  proof (rule run_holds_at [OF assms(4) wf1 _ _ h])
    show "unat (incrementID d1) + length acts < 2 ^ 64" using assms(2) i1 by simp
    show "unat k \<le> unat (incrementID d1)" using kb i1 by simp
    show "0 <s closed (t\<lparr>closed := 1\<rparr>) \<and> 0 <s closed (t\<lparr>t_opts := (t_opts t)\<lparr>Counter := 0\<rparr>\<rparr>)"
      if "0 <s closed t" for t :: "'a Timer"
      using that by (simp add: word_sless_alt)
    show "0 <s closed t1" if "0 <s closed t" and "cron_timer now k t dv wv = (t1, d2, w2, es1)"
      for t :: "'a Timer" and now dv wv t1 d2 w2 es1
      using that by (rule cron_timer_closed)
  qed
  then have h2: "holds_at k (\<lambda>t. 0 <s closed t) d2" ..
  have "RemoveTimer k d2 =
      (Some (if map_of (timers d2) k = None then ErrTimerNotFound else ErrCloseClosedTimer), d2)"
  proof (cases "map_of (timers d2) k")
    case None
    then show ?thesis by (simp add: RemoveTimer_def)
  next
    case (Some u)
    with h2 have "0 <s closed u" by (simp add: holds_at_def)
    with Some show ?thesis by (simp add: RemoveTimer_def stopTimer_def update_triv)
  qed
  with True show ?thesis by simp
qed

text \<open>
  The hypotheses hold for a timer in the set of a scheduler whose retirement channel has
  room: cancelled, it is refused with \<open>ErrCloseClosedTimer\<close> after a scan, and with
  \<open>ErrTimerNotFound\<close> after the loop has received its id.
\<close>

theorem C4_second_RemoveTimer_witness:
  "wf (sched_of 1 1 [(1, timer 1 (Some bump) 10 (- 1) None 100 10)] [] [] False)
   \<and> RemoveTimer 1 (sched_of 1 1 [(1, timer 1 (Some bump) 10 (- 1) None 100 10)] [] [] False)
     = (None, sched_of 1 1 [(1, (timer 1 (Some bump) 10 (- 1) None 100 10)\<lparr>closed := 1\<rparr>)] [1] [] False)
   \<and> run [Pass (CaseTick (Time 105))]
        (sched_of 1 1 [(1, (timer 1 (Some bump) 10 (- 1) None 100 10)\<lparr>closed := 1\<rparr>)] [1] [] False, 0)
     = Some (sched_of 1 1 [(1, (timer 1 (Some bump) 10 (- 1) None 100 10)\<lparr>closed := 1\<rparr>)] [1] [] False, 0, [])
   \<and> RemoveTimer 1 (sched_of 1 1 [(1, (timer 1 (Some bump) 10 (- 1) None 100 10)\<lparr>closed := 1\<rparr>)] [1] [] False)
     = (Some ErrCloseClosedTimer,
        sched_of 1 1 [(1, (timer 1 (Some bump) 10 (- 1) None 100 10)\<lparr>closed := 1\<rparr>)] [1] [] False)
   \<and> run [Pass CaseClosing]
        (sched_of 1 1 [(1, (timer 1 (Some bump) 10 (- 1) None 100 10)\<lparr>closed := 1\<rparr>)] [1] [] False, 0)
     = Some (sched_of 1 1 [] [] [] False, 0, [])
   \<and> RemoveTimer 1 (sched_of 1 1 [] [] [] False) = (Some ErrTimerNotFound, sched_of 1 1 [] [] [] False)"
  using C4_second_RemoveTimer [of "sched_of 1 1 [(1, timer 1 (Some bump) 10 (- 1) None 100 10)] [] [] False"
      "[Pass (CaseTick (Time 105))]" 1
      "sched_of 1 1 [(1, (timer 1 (Some bump) 10 (- 1) None 100 10)\<lparr>closed := 1\<rparr>)] [1] [] False" 0
      "sched_of 1 1 [(1, (timer 1 (Some bump) 10 (- 1) None 100 10)\<lparr>closed := 1\<rparr>)] [1] [] False" 0 "[]"]
    C4_second_RemoveTimer [of "sched_of 1 1 [(1, timer 1 (Some bump) 10 (- 1) None 100 10)] [] [] False"
      "[Pass CaseClosing]" 1
      "sched_of 1 1 [(1, (timer 1 (Some bump) 10 (- 1) None 100 10)\<lparr>closed := 1\<rparr>)] [1] [] False" 0
      "sched_of 1 1 [] [] [] False" 0 "[]"]
  by (simp add: example_defs operation_defs)

text \<open>
  C4 as stated fails: two timers are admitted to a scheduler of backlog 1 and the second
  is cancelled, which fills the retirement channel; cancelling the first then returns
  nil by setting its counter to 0, and cancelling it once more returns nil again.
\<close>

theorem C4_degraded_cancel_counterexample:
  "run [CallNewTimer (Time 100) 10 (Some bump) [], Pass CaseCreated,
        CallNewTimer (Time 100) 10 (Some bump) [], Pass CaseCreated, CallRemoveTimer 2] (sched 1, 0)
     = Some (sched_of 1 2 [(1, timer 1 (Some bump) 10 (- 1) None 100 10),
                           (2, (timer 2 (Some bump) 10 (- 1) None 100 10)\<lparr>closed := 1\<rparr>)] [2] [] False, 0, [])
   \<and> RemoveTimer 1 (sched_of 1 2 [(1, timer 1 (Some bump) 10 (- 1) None 100 10),
                           (2, (timer 2 (Some bump) 10 (- 1) None 100 10)\<lparr>closed := 1\<rparr>)] [2] [] False)
     = (None, sched_of 1 2 [(1, timer 1 (Some bump) 10 0 None 100 10),
                           (2, (timer 2 (Some bump) 10 (- 1) None 100 10)\<lparr>closed := 1\<rparr>)] [2] [] False)
   \<and> RemoveTimer 1 (sched_of 1 2 [(1, timer 1 (Some bump) 10 0 None 100 10),
                           (2, (timer 2 (Some bump) 10 (- 1) None 100 10)\<lparr>closed := 1\<rparr>)] [2] [] False)
     = (None, sched_of 1 2 [(1, timer 1 (Some bump) 10 0 None 100 10),
                           (2, (timer 2 (Some bump) 10 (- 1) None 100 10)\<lparr>closed := 1\<rparr>)] [2] [] False)"
  by (simp add: example_defs operation_defs)

section \<open>C5: one scan\<close>

text \<open>
  C5: in one scan of a timer set with distinct keys every timer's callback is called at
  most once; and for an interval timer that is due (counter not 0, no condition,
  \<open>createAt + elapse \<le> now\<close>) the scan calls the callback once (not at all when it is
  nil), adds one interval to \<open>elapse\<close> and takes one off a counter that is positive and
  not \<open>LoopForever\<close>, changing nothing else of the record.
\<close>

theorem C5_scan_fires_once:
  assumes "distinct (map fst (timers d))" and "Cron now d w = (d', w', es)"
  shows "count_list es (Called k) \<le> 1 \<and>
     (map_of (timers d) k = Some t \<and> Counter (t_opts t) \<noteq> 0 \<and> Condition (t_opts t) = None \<and>
      createAt t + elapse t \<le>s UnixNano now \<longrightarrow>
        count_list es (Called k) = (if Fn (t_opts t) = None then 0 else 1) \<and>
        map_of (timers d') k =
          Some (t\<lparr>elapse := elapse t + Interval (t_opts t),
                  t_opts := (t_opts t)\<lparr>Counter :=
                    (if Counter (t_opts t) \<noteq> LoopForever \<and> 0 < Counter (t_opts t)
                     then Counter (t_opts t) - 1 else Counter (t_opts t))\<rparr>\<rparr>))"
proof -
  from Cron_split [OF assms(2)] obtain ts' d1 where
    r: "cron_range now (timers d) d w = (ts', d1, w', es)" and d': "d' = d1\<lparr>timers := ts'\<rparr>"
    by blast
  have once: "count_list es (Called k) \<le> 1"
  proof (cases "map_of (timers d) k")
    case None
    then have "k \<notin> fst ` set (timers d)" by (simp add: map_of_eq_None_iff)
    from cron_range_absent [OF r this] show ?thesis by simp
  next
    case (Some u)
    from cron_range_visit [OF assms(1) Some r] obtain xs w1 t1 d2 w2 es1 where
      "cron_timer now k u (d\<lparr>ChClosingTimer := ChClosingTimer d @ xs\<rparr>) w1 = (t1, d2, w2, es1)"
      "count_list es (Called k) = count_list es1 (Called k)" by blast
    with cron_timer_calls [of now k u _ w1 t1 d2 w2 es1 k] show ?thesis by simp
  qed
  have fire: "count_list es (Called k) = (if Fn (t_opts t) = None then 0 else 1) \<and>
        map_of (timers d') k =
          Some (t\<lparr>elapse := elapse t + Interval (t_opts t),
                  t_opts := (t_opts t)\<lparr>Counter :=
                    (if Counter (t_opts t) \<noteq> LoopForever \<and> 0 < Counter (t_opts t)
                     then Counter (t_opts t) - 1 else Counter (t_opts t))\<rparr>\<rparr>)"
    if m: "map_of (timers d) k = Some t" and c: "Counter (t_opts t) \<noteq> 0"
      and n: "Condition (t_opts t) = None" and due: "createAt t + elapse t \<le>s UnixNano now"
  proof -
    from cron_range_visit [OF assms(1) m r] obtain xs w1 t1 d2 w2 es1 where
      v: "cron_timer now k t (d\<lparr>ChClosingTimer := ChClosingTimer d @ xs\<rparr>) w1 = (t1, d2, w2, es1)"
        "map_of ts' k = Some t1"
        "count_list es (Called k) = count_list es1 (Called k)" by blast
    from cron_timer_due [OF c n due v(1)] v(2,3) d' show ?thesis by simp
  qed
  from once fire show ?thesis by blast
qed

text \<open>The hypotheses hold for a timer with counter 3 and interval 10, created at 100, scanned at 110.\<close>

theorem C5_scan_fires_once_witness:
  "distinct (map fst (timers (sched_of 1 1 [(1, timer 1 (Some bump) 10 3 None 100 10)] [] [] False)))
   \<and> Cron (Time 110) (sched_of 1 1 [(1, timer 1 (Some bump) 10 3 None 100 10)] [] [] False) 0
       = (sched_of 1 1 [(1, timer 1 (Some bump) 10 2 None 100 20)] [] [] False, 1, [Called 1])
   \<and> count_list [Called 1] (Called 1) = 1
   \<and> map_of (timers (sched_of 1 1 [(1, timer 1 (Some bump) 10 2 None 100 20)] [] [] False)) 1
       = Some (timer 1 (Some bump) 10 2 None 100 20)"
  using C5_scan_fires_once [of "sched_of 1 1 [(1, timer 1 (Some bump) 10 3 None 100 10)] [] [] False"
      "Time 110" 0 "sched_of 1 1 [(1, timer 1 (Some bump) 10 2 None 100 20)] [] [] False" 1 "[Called 1]" 1
      "timer 1 (Some bump) 10 3 None 100 10"]
  by (simp add: example_defs operation_defs)

section \<open>C6: no early firing\<close>

text \<open>
  C6 says that a timer admitted at clock reading \<open>t\<close> with interval \<open>i\<close> gets \<open>elapse = i\<close>
  and is never called before \<open>t + i\<close>. The code does not keep that where \<open>t + i\<close> is more
  than an \<open>int64\<close> holds: \<open>createAt + elapse\<close> wraps round to a negative number, the
  test \<open>createAt + elapse <= now\<close> holds at once, and a timer admitted on a fresh scheduler
  at 1000 with the largest interval is called by the scan at 1000, long before \<open>t + i\<close>.
\<close>

theorem C6_overflow_fires_early:
  "run [CallNewTimer (Time 1000) 9223372036854775807 (Some bump) [], Pass CaseCreated,
        Pass (CaseTick (Time 1000))] (sched 1, 0)
     = Some (sched_of 1 1 [(1, timer 1 (Some bump) 9223372036854775807 (- 1) None 1000
                                 18446744073709551614)] [] [] False,
             1, [(Time 1000, Called 1)])
   \<and> sint (1000 :: int64) < sint (1000 :: int64) + sint (9223372036854775807 :: int64)"
  by (simp add: example_defs operation_defs)

text \<open>
  Where the code does keep it: in every run in which fewer than \<open>2 ^ 64\<close> ids are given
  out, if \<open>t + i\<close> stays in the range of \<open>int64\<close> and the clock readings of successive
  scans do not decrease, every call of a timer admitted at \<open>t\<close> with interval \<open>i\<close> and no
  condition is made by a scan whose clock reading is at least \<open>t + i\<close>.
\<close>

lemma no_early_firing_in_range:
  assumes "wf d" and "unat (incrementID d) + 1 + length acts < 2 ^ 64"
    and "NewTimer (Time t) i fn opt d = (Some k, d1)"
    and "Condition (admitted_opts i fn opt) = None"
    and "- (2 ^ 63) \<le> sint t + sint i" and "sint t + sint i < 2 ^ 63"
    and "sorted (ticks acts)"
    and "run acts (d1, w) = Some (d2, w2, tr)"
  shows "t_id (last (ChCreatedTimer d1)) = k \<and> elapse (last (ChCreatedTimer d1)) = i \<and>
         (\<forall>(now, e) \<in> set tr. e = Called k \<longrightarrow> sint t + sint i \<le> sint (UnixNano now))"
proof -
  from assms(2) have nw: "unat (incrementID d) + 1 < 2 ^ 64" by simp
  have no: "sint (t + i) = sint t + sint i"
    using assms(5,6) by (simp add: sint_word_ariths signed_take_bit_int_eq_self)
  let ?L = "\<forall>x \<in> set (ticks acts). sint t + sint i \<le> x"
  have "unfired t i ?L \<lparr>t_opts = admitted_opts i fn opt, t_id = k, createAt = UnixNano (Time t),
              elapse = i, closed = 0\<rparr>"
    using assms(4) by (simp add: unfired_def)
  from NewTimer_holds_at [OF assms(1) nw assms(3), of "unfired t i ?L", OF this]
  have wf1: "wf d1" and k1: "unat k \<le> unat (incrementID d1)"
    and i1: "incrementID d1 = incrementID d + 1" and h: "holds_at k (unfired t i ?L) d1"
    by blast+
  from i1 unat_next_id [OF nw] assms(2) have "unat (incrementID d1) + length acts < 2 ^ 64"
    by simp
  from run_unfired [OF assms(8) wf1 this k1 assms(7) no h]
  have "\<forall>(now, e) \<in> set tr. e = Called k \<longrightarrow> sint t + sint i \<le> sint (UnixNano now)" .
  moreover from assms(3) have "t_id (last (ChCreatedTimer d1)) = k \<and> elapse (last (ChCreatedTimer d1)) = i"
    by (auto simp: NewTimer_def Let_def split: if_splits)
  ultimately show ?thesis by simp
qed

text \<open>
  So for a timer admitted at 100 with interval 10 and scanned at 105, 110 and 125, which
  is called at 110 and at 125.
\<close>

lemma no_early_firing_in_range_example:
  "wf (sched 1)
   \<and> NewTimer (Time 100) 10 (Some bump) [] (sched 1)
       = (Some 1, sched_of 1 1 [] [] [timer 1 (Some bump) 10 (- 1) None 100 10] False)
   \<and> sorted (ticks [Pass CaseCreated, Pass (CaseTick (Time 105)), Pass (CaseTick (Time 110)),
                    Pass (CaseTick (Time 125)) :: nat action])
   \<and> run [Pass CaseCreated, Pass (CaseTick (Time 105)), Pass (CaseTick (Time 110)),
          Pass (CaseTick (Time 125))]
         (sched_of 1 1 [] [] [timer 1 (Some bump) 10 (- 1) None 100 10] False, 0)
       = Some (sched_of 1 1 [(1, timer 1 (Some bump) 10 (- 1) None 100 30)] [] [] False, 2,
               [(Time 110, Called 1), (Time 125, Called 1)])
   \<and> sint (100 :: int64) + sint (10 :: int64) \<le> sint (UnixNano (Time 110))
   \<and> sint (100 :: int64) + sint (10 :: int64) \<le> sint (UnixNano (Time 125))"
  using no_early_firing_in_range [of "sched 1"
      "[Pass CaseCreated, Pass (CaseTick (Time 105)), Pass (CaseTick (Time 110)), Pass (CaseTick (Time 125))]"
      100 10 "Some bump" "[]" 1 "sched_of 1 1 [] [] [timer 1 (Some bump) 10 (- 1) None 100 10] False"
      0 "sched_of 1 1 [(1, timer 1 (Some bump) 10 (- 1) None 100 30)] [] [] False" 2
      "[(Time 110, Called 1), (Time 125, Called 1)]"]
  by (simp add: example_defs operation_defs)

text \<open>
  The clock readings matter because \<open>elapse\<close> grows by the interval at every firing: with
  the interval -5 a timer admitted at 100 is called by a scan at 95 and then, the clock
  having been set back, by a scan at 90.
\<close>

lemma clock_set_back_example:
  "run [CallNewTimer (Time 100) (- 5) (Some bump) [], Pass CaseCreated,
        Pass (CaseTick (Time 95)), Pass (CaseTick (Time 90))] (sched 1, 0)
     = Some (sched_of 1 1 [(1, timer 1 (Some bump) (- 5) (- 1) None 100 (- 15))] [] [] False,
             2, [(Time 95, Called 1), (Time 90, Called 1)])"
  by (simp add: example_defs operation_defs)

section \<open>C7: records with counter 0\<close>

text \<open>
  C7, as the code has it: a scan never calls the callback of a record whose counter is 0
  and removes no record from the set. If the retirement channel is full when the scan
  starts, the scan leaves the record and the channel as they are. If the record is not
  closed and the channel still has room when the scan ends, the scan has enqueued the
  record's id and set \<open>closed\<close>. A record leaves the set when the loop receives its id
  from the retirement channel.
\<close>

theorem C7_zero_counter_scan:
  assumes "distinct (map fst (timers d))" and "map_of (timers d) k = Some t"
    and "Counter (t_opts t) = 0" and "Cron now d w = (d', w', es)"
  shows "count_list es (Called k) = 0 \<and>
     map fst (timers d') = map fst (timers d) \<and>
     (\<not> int (length (ChClosingTimer d)) < timerBacklog (opts d) \<longrightarrow>
        map_of (timers d') k = Some t \<and> ChClosingTimer d' = ChClosingTimer d) \<and>
     (\<not> 0 <s closed t \<and> int (length (ChClosingTimer d')) < timerBacklog (opts d) \<longrightarrow>
        map_of (timers d') k = Some (t\<lparr>closed := 1\<rparr>) \<and> t_id t \<in> set (ChClosingTimer d')) \<and>
     (ChClosingTimer e = j # js \<longrightarrow>
        (\<exists>e'. select_step CaseClosing (e, u) = Some (NextPass, e', u, []) \<and>
              ChClosingTimer e' = js \<and> map_of (timers e') j = None))"
proof -
  from Cron_split [OF assms(4)] obtain ts' d1 where
    r: "cron_range now (timers d) d w = (ts', d1, w', es)" and d': "d' = d1\<lparr>timers := ts'\<rparr>"
    by blast
  from cron_range_visit [OF assms(1,2) r] obtain xs w1 t1 d2 w2 es1 ys where
    v: "cron_timer now k t (d\<lparr>ChClosingTimer := ChClosingTimer d @ xs\<rparr>) w1 = (t1, d2, w2, es1)"
      "map_of ts' k = Some t1"
      "count_list es (Called k) = count_list es1 (Called k)"
      "d1 = d2\<lparr>ChClosingTimer := ChClosingTimer d2 @ ys\<rparr>" by blast
  let ?dv = "d\<lparr>ChClosingTimer := ChClosingTimer d @ xs\<rparr>"
  from v(1) assms(3) have es1: "es1 = []"
    by (auto simp: cron_timer_def split: if_splits prod.splits)
  have keys: "map fst (timers d') = map fst (timers d)"
    using cron_range_keys [OF r] d' by simp
  have full: "map_of (timers d') k = Some t \<and> ChClosingTimer d' = ChClosingTimer d"
    if f: "\<not> int (length (ChClosingTimer d)) < timerBacklog (opts d)"
  proof -
    from cron_range_full [OF f r] have "d1 = d" .
    moreover from f have "\<not> int (length (ChClosingTimer ?dv)) < timerBacklog (opts ?dv)" by simp
    with v(1) assms(3) have "t1 = t" by (simp add: cron_timer_def)
    ultimately show ?thesis using v(2) d' by simp
  qed
  have room: "map_of (timers d') k = Some (t\<lparr>closed := 1\<rparr>) \<and> t_id t \<in> set (ChClosingTimer d')"
    if c: "\<not> 0 <s closed t" and l: "int (length (ChClosingTimer d')) < timerBacklog (opts d)"
  proof -
    from cron_timer_sched [OF v(1)] have d2: "\<exists>zs. d2 = ?dv\<lparr>ChClosingTimer := ChClosingTimer ?dv @ zs\<rparr>"
      by blast
    with v(4) d' l have "int (length (ChClosingTimer ?dv)) < timerBacklog (opts ?dv)" by auto
    with v(1) assms(3) c have "t1 = t\<lparr>closed := 1\<rparr>" "t_id t \<in> set (ChClosingTimer d2)"
      by (auto simp: cron_timer_def stopTimer_def)
    with v(2,4) d' show ?thesis by simp
  qed
  have recv: "\<exists>e'. select_step CaseClosing (e, u) = Some (NextPass, e', u, []) \<and>
      ChClosingTimer e' = js \<and> map_of (timers e') j = None"
    if "ChClosingTimer e = j # js"
    using that by (simp add: select_step_def delete_conv')
  from v(3) es1 keys full room recv show ?thesis by simp
qed

text \<open>
  The hypotheses hold for a record with counter 0 in a scheduler of backlog 2 with an
  empty retirement channel, where the scan enqueues its id and the next retirement pass
  removes the record, and in one of backlog 1 whose channel is full, where the scan
  changes nothing.
\<close>

theorem C7_zero_counter_scan_witness:
  "Cron (Time 200) (sched_of 2 1 [(1, timer 1 (Some bump) 10 0 None 100 10)] [] [] False) 0
     = (sched_of 2 1 [(1, (timer 1 (Some bump) 10 0 None 100 10)\<lparr>closed := 1\<rparr>)] [1] [] False, 0, [])
   \<and> select_step CaseClosing
        (sched_of 2 1 [(1, (timer 1 (Some bump) 10 0 None 100 10)\<lparr>closed := 1\<rparr>)] [1] [] False, 0)
     = Some (NextPass, sched_of 2 1 [] [] [] False, 0, [])
   \<and> Cron (Time 105)
        (sched_of 1 2 [(1, timer 1 (Some bump) 10 0 None 100 10),
                       (2, (timer 2 (Some bump) 10 (- 1) None 100 10)\<lparr>closed := 1\<rparr>)] [2] [] False) 0
     = (sched_of 1 2 [(1, timer 1 (Some bump) 10 0 None 100 10),
                      (2, (timer 2 (Some bump) 10 (- 1) None 100 10)\<lparr>closed := 1\<rparr>)] [2] [] False, 0, [])"
  using C7_zero_counter_scan [of "sched_of 2 1 [(1, timer 1 (Some bump) 10 0 None 100 10)] [] [] False"
      1 "timer 1 (Some bump) 10 0 None 100 10" "Time 200" 0
      "sched_of 2 1 [(1, (timer 1 (Some bump) 10 0 None 100 10)\<lparr>closed := 1\<rparr>)] [1] [] False" 0 "[]"
      "sched_of 2 1 [(1, (timer 1 (Some bump) 10 0 None 100 10)\<lparr>closed := 1\<rparr>)] [1] [] False" 1 "[]" 0]
    C7_zero_counter_scan [of
      "sched_of 1 2 [(1, timer 1 (Some bump) 10 0 None 100 10),
                     (2, (timer 2 (Some bump) 10 (- 1) None 100 10)\<lparr>closed := 1\<rparr>)] [2] [] False"
      1 "timer 1 (Some bump) 10 0 None 100 10" "Time 105" 0
      "sched_of 1 2 [(1, timer 1 (Some bump) 10 0 None 100 10),
                     (2, (timer 2 (Some bump) 10 (- 1) None 100 10)\<lparr>closed := 1\<rparr>)] [2] [] False" 0 "[]"
      "sched_of 1 2 [(1, timer 1 (Some bump) 10 0 None 100 10),
                     (2, (timer 2 (Some bump) 10 (- 1) None 100 10)\<lparr>closed := 1\<rparr>)] [2] [] False" 2 "[]" 0]
  by (simp add: example_defs operation_defs)

text \<open>
  C7 as stated fails: two timers are admitted to a scheduler of backlog 1; cancelling the
  second fills the retirement channel and cancelling the first sets its counter to 0.
  Two scans later the first is still in the set and its id is not in the channel.
\<close>

theorem C7_full_channel_counterexample:
  "run [CallNewTimer (Time 100) 10 (Some bump) [], Pass CaseCreated,
        CallNewTimer (Time 100) 10 (Some bump) [], Pass CaseCreated,
        CallRemoveTimer 2, CallRemoveTimer 1] (sched 1, 0)
     = Some (sched_of 1 2 [(1, timer 1 (Some bump) 10 0 None 100 10),
                           (2, (timer 2 (Some bump) 10 (- 1) None 100 10)\<lparr>closed := 1\<rparr>)] [2] [] False, 0, [])
   \<and> run [Pass (CaseTick (Time 105)), Pass (CaseTick (Time 106))]
        (sched_of 1 2 [(1, timer 1 (Some bump) 10 0 None 100 10),
                           (2, (timer 2 (Some bump) 10 (- 1) None 100 10)\<lparr>closed := 1\<rparr>)] [2] [] False, 0)
     = Some (sched_of 1 2 [(1, timer 1 (Some bump) 10 0 None 100 10),
                           (2, (timer 2 (Some bump) 10 (- 1) None 100 10)\<lparr>closed := 1\<rparr>)] [2] [] False, 0, [])"
  by (simp add: example_defs operation_defs)

section \<open>C8: panic containment\<close>




section \<open>C9: the counter bounds the calls\<close>

text \<open>
  C9, as the code has it: a timer admitted with no condition and a counter \<open>n \<ge> 0\<close> is
  called at most \<open>n\<close> times in every run in which fewer than \<open>2 ^ 64\<close> ids are given
  out. A timer with a condition is not bounded by its counter.
\<close>

theorem C9_interval_counter_bound:
  assumes "wf d" and "unat (incrementID d) + 1 + length acts < 2 ^ 64"
    and "NewTimer now interval fn opt d = (Some k, d1)"
    and "Condition (admitted_opts interval fn opt) = None"
    and "0 \<le> Counter (admitted_opts interval fn opt)"
    and "run acts (d1, w) = Some (d2, w2, tr)"
  shows "int (count_list (map snd tr) (Called k)) \<le> Counter (admitted_opts interval fn opt)"
proof -
  let ?n = "Counter (admitted_opts interval fn opt)"
  from assms(2) have nw: "unat (incrementID d) + 1 < 2 ^ 64" by simp
  have "budget ?n 0 \<lparr>t_opts = admitted_opts interval fn opt, t_id = k, createAt = UnixNano now,
              elapse = interval, closed = 0\<rparr>"
    using assms(4,5) by (simp add: budget_def)
  from NewTimer_holds_at [OF assms(1) nw assms(3), of "budget ?n 0", OF this]
  have wf1: "wf d1" and k1: "unat k \<le> unat (incrementID d1)"
    and i1: "incrementID d1 = incrementID d + 1" and h: "holds_at k (budget ?n 0) d1"
    by blast+
  from i1 unat_next_id [OF nw] assms(2) have "unat (incrementID d1) + length acts < 2 ^ 64"
    by simp
  from run_budget [OF assms(6) wf1 this k1 _ h] assms(5) show ?thesis by simp
qed

text \<open>
  The hypotheses hold for a timer admitted with counter 2: it is called at 110 and 120,
  enqueued for retirement at 130 and removed, and not called again.
\<close>

theorem C9_interval_counter_bound_witness:
  "wf (sched 1)
   \<and> NewTimer (Time 100) 10 (Some bump) [\<lambda>p. p\<lparr>Counter := 2\<rparr>] (sched 1)
       = (Some 1, sched_of 1 1 [] [] [timer 1 (Some bump) 10 2 None 100 10] False)
   \<and> Counter (admitted_opts 10 (Some bump) [\<lambda>p. p\<lparr>Counter := 2\<rparr>]) = 2
   \<and> run [Pass CaseCreated, Pass (CaseTick (Time 110)), Pass (CaseTick (Time 120)),
          Pass (CaseTick (Time 130)), Pass (CaseTick (Time 140)), Pass CaseClosing,
          Pass (CaseTick (Time 150))]
         (sched_of 1 1 [] [] [timer 1 (Some bump) 10 2 None 100 10] False, 0)
       = Some (sched_of 1 1 [] [] [] False, 2, [(Time 110, Called 1), (Time 120, Called 1)])
   \<and> int (count_list (map snd [(Time 110, Called 1), (Time 120, Called 1)]) (Called 1)) \<le> 2"
  using C9_interval_counter_bound [of "sched 1"
      "[Pass CaseCreated, Pass (CaseTick (Time 110)), Pass (CaseTick (Time 120)),
          Pass (CaseTick (Time 130)), Pass (CaseTick (Time 140)), Pass CaseClosing,
          Pass (CaseTick (Time 150))]"
      "Time 100" 10 "Some bump" "[\<lambda>p. p\<lparr>Counter := 2\<rparr>]" 1
      "sched_of 1 1 [] [] [timer 1 (Some bump) 10 2 None 100 10] False"
      0 "sched_of 1 1 [] [] [] False" 2 "[(Time 110, Called 1), (Time 120, Called 1)]"]
  by (simp add: example_defs operation_defs)

text \<open>
  C9 as stated fails: a timer admitted with counter 1 and a condition that always holds
  is called by both of two scans.
\<close>

theorem C9_condition_timer_counterexample:
  "NewTimer (Time 100) 10 (Some bump) [\<lambda>p. p\<lparr>Counter := 1\<rparr>, \<lambda>p. p\<lparr>Condition := Some (\<lambda>u. True)\<rparr>] (sched 1)
       = (Some 1, sched_of 1 1 [] [] [timer 1 (Some bump) 10 1 (Some (\<lambda>u. True)) 100 10] False)
   \<and> run [Pass CaseCreated, Pass (CaseTick (Time 110)), Pass (CaseTick (Time 120))]
         (sched_of 1 1 [] [] [timer 1 (Some bump) 10 1 (Some (\<lambda>u. True)) 100 10] False, 0)
       = Some (sched_of 1 1 [(1, timer 1 (Some bump) 10 1 (Some (\<lambda>u. True)) 100 10)] [] [] False, 2,
               [(Time 110, Called 1), (Time 120, Called 1)])
   \<and> count_list (map snd [(Time 110, Called 1), (Time 120, Called 1)]) (Called 1) = 2"
  by (simp add: example_defs operation_defs)

section \<open>C10: cancelling before admission\<close>

text \<open>
  C10: \<open>RemoveTimer\<close> returns \<open>ErrTimerNotFound\<close> exactly when the id is not a key of
  the timer set. So for an id \<open>NewTimer\<close> has just returned on a well-formed scheduler,
  which is not yet in the set, \<open>RemoveTimer\<close> returns \<open>ErrTimerNotFound\<close> and changes
  nothing: the record is still the last one in the admission channel; once the loop has
  received what the channel holds it is in the timer set, as it was admitted; and a scan
  at a clock reading for which it is due then calls its callback (for a counter other
  than 0, no condition and a callback that is not nil).
\<close>

theorem C10_RemoveTimer_before_admission:
  assumes "wf d" and "unat (incrementID d) + 1 < 2 ^ 64"
    and "NewTimer now interval fn opt d = (Some k, d1)"
  shows "(fst (RemoveTimer j e) = Some ErrTimerNotFound) = (map_of (timers e) j = None) \<and>
     map_of (timers d1) k = None \<and>
     RemoveTimer k d1 = (Some ErrTimerNotFound, d1) \<and>
     ChCreatedTimer d1 = ChCreatedTimer d @
       [\<lparr>t_opts = admitted_opts interval fn opt, t_id = k, createAt = UnixNano now,
         elapse = interval, closed = 0\<rparr>] \<and>
     (\<exists>d2. run (replicate (length (ChCreatedTimer d1)) (Pass CaseCreated)) (d1, w) = Some (d2, w, []) \<and>
           map_of (timers d2) k =
             Some \<lparr>t_opts = admitted_opts interval fn opt, t_id = k, createAt = UnixNano now,
                   elapse = interval, closed = 0\<rparr> \<and>
           (Counter (admitted_opts interval fn opt) \<noteq> 0 \<and>
            Condition (admitted_opts interval fn opt) = None \<and>
            Fn (admitted_opts interval fn opt) \<noteq> None \<and>
            UnixNano now + interval \<le>s UnixNano later \<longrightarrow>
              count_list (snd (snd (Cron later d2 w))) (Called k) = 1))"
proof -
  let ?t = "\<lparr>t_opts = admitted_opts interval fn opt, t_id = k, createAt = UnixNano now,
             elapse = interval, closed = 0\<rparr>"
  have a: "(fst (RemoveTimer j e) = Some ErrTimerNotFound) = (map_of (timers e) j = None)"
    by (auto simp: RemoveTimer_def stopTimer_def split: option.splits if_splits)
  from assms(3) have t: "ChCreatedTimer d1 = ChCreatedTimer d @ [?t]"
    and tm: "timers d1 = timers d" and k: "k = incrementID d + 1"
    by (auto simp: NewTimer_def Let_def admitted_opts_def split: if_splits)
  have "unat k = unat (incrementID d) + 1" unfolding k using assms(2) by (rule unat_next_id)
  with assms(1) have "k \<notin> fst ` set (timers d)" by (fastforce simp: wf_def)
  with tm have fresh: "map_of (timers d1) k = None" by (simp add: map_of_eq_None_iff)
  then have b: "RemoveTimer k d1 = (Some ErrTimerNotFound, d1)"
    by (simp add: RemoveTimer_def)
  from wf_NewTimer [OF assms(1,2), of now interval fn opt] assms(3) have wf1: "wf d1" by simp
  from drain [OF t, of w] t obtain d2 where
    r: "run (replicate (length (ChCreatedTimer d1)) (Pass CaseCreated)) (d1, w) = Some (d2, w, [])"
    and m: "map_of (timers d2) k = Some ?t"
    by auto
  from passes_wf [OF r wf1] have dist: "distinct (map fst (timers d2))" by (simp add: wf_def)
  have fire: "count_list (snd (snd (Cron later d2 w))) (Called k) = 1"
    if "Counter (admitted_opts interval fn opt) \<noteq> 0"
      and "Condition (admitted_opts interval fn opt) = None"
      and "Fn (admitted_opts interval fn opt) \<noteq> None"
      and "UnixNano now + interval \<le>s UnixNano later"
  proof -
    obtain d3 w3 es where c: "Cron later d2 w = (d3, w3, es)" by (cases "Cron later d2 w")
    from Cron_due [OF dist c m] that c show ?thesis by simp
  qed
  from r m fire have
    "\<exists>d2. run (replicate (length (ChCreatedTimer d1)) (Pass CaseCreated)) (d1, w) = Some (d2, w, []) \<and>
       map_of (timers d2) k = Some ?t \<and>
       (Counter (admitted_opts interval fn opt) \<noteq> 0 \<and>
        Condition (admitted_opts interval fn opt) = None \<and>
        Fn (admitted_opts interval fn opt) \<noteq> None \<and>
        UnixNano now + interval \<le>s UnixNano later \<longrightarrow>
          count_list (snd (snd (Cron later d2 w))) (Called k) = 1)"
    by (intro exI [of _ d2] conjI impI) (assumption, assumption, elim conjE, assumption+)
  with a fresh b t show ?thesis by (intro conjI) (assumption+)
qed

text \<open>
  The hypotheses hold on a fresh scheduler: the id 1 is refused by \<open>RemoveTimer\<close>, and
  after the admission pass the timer is called by the scan at 110.
\<close>

theorem C10_RemoveTimer_before_admission_witness:
  "wf (sched 1)
   \<and> NewTimer (Time 100) 10 (Some bump) [] (sched 1)
       = (Some 1, sched_of 1 1 [] [] [timer 1 (Some bump) 10 (- 1) None 100 10] False)
   \<and> RemoveTimer 1 (sched_of 1 1 [] [] [timer 1 (Some bump) 10 (- 1) None 100 10] False)
       = (Some ErrTimerNotFound, sched_of 1 1 [] [] [timer 1 (Some bump) 10 (- 1) None 100 10] False)
   \<and> run [Pass CaseCreated, Pass (CaseTick (Time 110))]
         (sched_of 1 1 [] [] [timer 1 (Some bump) 10 (- 1) None 100 10] False, 0)
       = Some (sched_of 1 1 [(1, timer 1 (Some bump) 10 (- 1) None 100 20)] [] [] False, 1,
               [(Time 110, Called 1)])"
  using C10_RemoveTimer_before_admission [of "sched 1" "Time 100" 10 "Some bump" "[]" 1
      "sched_of 1 1 [] [] [timer 1 (Some bump) 10 (- 1) None 100 10] False" 1 "sched 1" 0 "Time 110"]
  by (simp add: example_defs operation_defs)

end
